theory Spec2Isabelle
  imports Main "HOL-Library.Word" "HOL-Library.AList"
begin

unbundle bit_operations_syntax

section \<open>Bytes, text and exceptions\<close>

text \<open>
  A Python \<open>bytes\<close> object is a list of 8-bit words. A Python \<open>str\<close> is a \<open>string\<close>,
  each \<open>char\<close> standing for the code point of the same number, so the model covers text
  whose code points are below 256. Exceptions are values: a call that can raise returns
  \<open>exn + 'a\<close>, with \<open>Inl\<close> for the exception.
\<close>

type_synonym byte = "8 word"
type_synonym bytes = "byte list"

datatype exn = BinasciiError | ValueError | InvalidToken | JSONDecodeError
  | UnicodeDecodeError | RecursionError | KeyError | TypeError | MarkupError | NotModelled

definition ascii :: "string \<Rightarrow> bytes" where
  "ascii s = map of_char s"

text \<open>\<open>str.encode()\<close>: UTF-8, one byte below 128 and two bytes from 128 to 255.\<close>

definition utf8_char :: "char \<Rightarrow> bytes" where
  "utf8_char c =
     (let n = of_char c :: nat in
      if n < 128 then [of_nat n]
      else [0xC0 OR of_nat (n div 64), 0x80 OR of_nat (n mod 64)])"

definition str_encode :: "string \<Rightarrow> bytes" where
  "str_encode s = concat (map utf8_char s)"



definition chunks :: "nat \<Rightarrow> 'a list \<Rightarrow> 'a list list" where
  "chunks n xs = map (\<lambda>i. take n (drop (i * n) xs)) [0..<(length xs + n - 1) div n]"

definition xor_bytes :: "bytes \<Rightarrow> bytes \<Rightarrow> bytes" where
  "xor_bytes xs ys = map (\<lambda>(x, y). x XOR y) (zip xs ys)"

section \<open>Module base64\<close>

text \<open>
  \<open>base64.b64encode\<close> is \<open>binascii.b2a_base64\<close> without the newline, and
  \<open>base64.b64decode(s)\<close> (no \<open>validate\<close>) is \<open>binascii.a2b_base64\<close> in its lenient
  mode: it skips every byte outside the alphabet, stops at the padding that completes a
  quad, never looks at the unused low bits of the last character, and raises
  \<open>binascii.Error\<close> when the characters left over do not fill a quad. The decoder below
  follows CPython's loop with its three variables \<open>quad_pos\<close>, \<open>leftchar\<close> and \<open>pads\<close>.
\<close>

definition table_b2a_base64 :: bytes where
  "table_b2a_base64 =
     ascii ''ABCDEFGHIJKLMNOPQRSTUVWXYZabcdefghijklmnopqrstuvwxyz0123456789+/''"

definition BASE64_PAD :: byte where
  "BASE64_PAD = 61"

definition b2a :: "byte \<Rightarrow> byte" where
  "b2a v = table_b2a_base64 ! unat v"

definition table_a2b_base64 :: "byte \<Rightarrow> byte option" where
  "table_a2b_base64 c =
     (if 65 \<le> c \<and> c \<le> 90 then Some (c - 65)
      else if 97 \<le> c \<and> c \<le> 122 then Some (c - 71)
      else if 48 \<le> c \<and> c \<le> 57 then Some (c + 4)
      else if c = 43 then Some 62
      else if c = 47 then Some 63
      else None)"

fun b2a_base64 :: "bytes \<Rightarrow> bytes" where
  "b2a_base64 (a # b # c # rest) =
     b2a (drop_bit 2 a)
     # b2a (push_bit 4 (a AND 3) OR drop_bit 4 b)
     # b2a (push_bit 2 (b AND 15) OR drop_bit 6 c)
     # b2a (c AND 63)
     # b2a_base64 rest"
| "b2a_base64 [a, b] =
     [b2a (drop_bit 2 a), b2a (push_bit 4 (a AND 3) OR drop_bit 4 b),
      b2a (push_bit 2 (b AND 15)), BASE64_PAD]"
| "b2a_base64 [a] =
     [b2a (drop_bit 2 a), b2a (push_bit 4 (a AND 3)), BASE64_PAD, BASE64_PAD]"
| "b2a_base64 [] = []"

fun a2b_base64 :: "nat \<Rightarrow> byte \<Rightarrow> nat \<Rightarrow> bytes \<Rightarrow> bytes \<Rightarrow> exn + bytes" where
  "a2b_base64 quad_pos leftchar pads out [] =
     (if quad_pos \<noteq> 0 then Inl BinasciiError else Inr out)"
| "a2b_base64 quad_pos leftchar pads out (this_ch # rest) =
     (if this_ch = BASE64_PAD then
        (if quad_pos \<ge> 2 \<and> quad_pos + (pads + 1) \<ge> 4 then Inr out
         else a2b_base64 quad_pos leftchar (if quad_pos \<ge> 2 then pads + 1 else pads) out rest)
      else
        (case table_a2b_base64 this_ch of
           None \<Rightarrow> a2b_base64 quad_pos leftchar pads out rest
         | Some v \<Rightarrow>
            (if quad_pos = 0 then a2b_base64 1 v 0 out rest
             else if quad_pos = 1 then
               a2b_base64 2 (v AND 15) 0 (out @ [push_bit 2 leftchar OR drop_bit 4 v]) rest
             else if quad_pos = 2 then
               a2b_base64 3 (v AND 3) 0 (out @ [push_bit 4 leftchar OR drop_bit 2 v]) rest
             else
               a2b_base64 0 0 0 (out @ [push_bit 6 leftchar OR v]) rest)))"

definition b64encode :: "bytes \<Rightarrow> bytes" where
  "b64encode s = b2a_base64 s"

definition b64decode :: "bytes \<Rightarrow> exn + bytes" where
  "b64decode s = a2b_base64 0 0 0 [] s"

text \<open>The URL-safe variants translate \<open>+\<close> and \<open>/\<close> to \<open>-\<close> and \<open>_\<close> after encoding, and
  back before decoding.\<close>

definition urlsafe_encode_translation :: "byte \<Rightarrow> byte" where
  "urlsafe_encode_translation c = (if c = 43 then 45 else if c = 47 then 95 else c)"

definition urlsafe_decode_translation :: "byte \<Rightarrow> byte" where
  "urlsafe_decode_translation c = (if c = 45 then 43 else if c = 95 then 47 else c)"

definition urlsafe_b64encode :: "bytes \<Rightarrow> bytes" where
  "urlsafe_b64encode s = map urlsafe_encode_translation (b64encode s)"

definition urlsafe_b64decode :: "bytes \<Rightarrow> exn + bytes" where
  "urlsafe_b64decode s = b64decode (map urlsafe_decode_translation s)"

section \<open>SHA-256, HMAC and PBKDF2\<close>

text \<open>
  \<open>PBKDF2HMAC(algorithm=SHA256(), length=32, salt, iterations).derive(password)\<close> is PBKDF2
  of RFC 8018 over HMAC (RFC 2104) over SHA-256 (FIPS 180-4). HMAC hashes a key longer
  than the 64-byte block and fills a shorter one with zero bytes.
\<close>

type_synonym u32 = "32 word"

definition sha256_K :: "u32 list" where
  "sha256_K =
   [0x428A2F98, 0x71374491, 0xB5C0FBCF, 0xE9B5DBA5, 0x3956C25B, 0x59F111F1, 0x923F82A4, 0xAB1C5ED5,
    0xD807AA98, 0x12835B01, 0x243185BE, 0x550C7DC3, 0x72BE5D74, 0x80DEB1FE, 0x9BDC06A7, 0xC19BF174,
    0xE49B69C1, 0xEFBE4786, 0x0FC19DC6, 0x240CA1CC, 0x2DE92C6F, 0x4A7484AA, 0x5CB0A9DC, 0x76F988DA,
    0x983E5152, 0xA831C66D, 0xB00327C8, 0xBF597FC7, 0xC6E00BF3, 0xD5A79147, 0x06CA6351, 0x14292967,
    0x27B70A85, 0x2E1B2138, 0x4D2C6DFC, 0x53380D13, 0x650A7354, 0x766A0ABB, 0x81C2C92E, 0x92722C85,
    0xA2BFE8A1, 0xA81A664B, 0xC24B8B70, 0xC76C51A3, 0xD192E819, 0xD6990624, 0xF40E3585, 0x106AA070,
    0x19A4C116, 0x1E376C08, 0x2748774C, 0x34B0BCB5, 0x391C0CB3, 0x4ED8AA4A, 0x5B9CCA4F, 0x682E6FF3,
    0x748F82EE, 0x78A5636F, 0x84C87814, 0x8CC70208, 0x90BEFFFA, 0xA4506CEB, 0xBEF9A3F7, 0xC67178F2]"

type_synonym sha_state = "u32 \<times> u32 \<times> u32 \<times> u32 \<times> u32 \<times> u32 \<times> u32 \<times> u32"

definition sha256_init :: sha_state where
  "sha256_init = (0x6A09E667, 0xBB67AE85, 0x3C6EF372, 0xA54FF53A,
                  0x510E527F, 0x9B05688C, 0x1F83D9AB, 0x5BE0CD19)"

definition be32 :: "bytes \<Rightarrow> u32" where
  "be32 bs = foldl (\<lambda>acc b. push_bit 8 acc OR ucast b) 0 bs"

definition u32_bytes :: "u32 \<Rightarrow> bytes" where
  "u32_bytes w = [ucast (drop_bit 24 w), ucast (drop_bit 16 w), ucast (drop_bit 8 w), ucast w]"

definition u64_bytes :: "64 word \<Rightarrow> bytes" where
  "u64_bytes w = map (\<lambda>i. ucast (drop_bit (8 * (7 - i)) w)) [0..<8]"

definition sha256_pad :: "bytes \<Rightarrow> bytes" where
  "sha256_pad m =
     m @ [0x80] @ replicate ((119 - length m mod 64) mod 64) 0
       @ u64_bytes (of_nat (8 * length m))"

definition ssig0 :: "u32 \<Rightarrow> u32" where
  "ssig0 x = word_rotr 7 x XOR word_rotr 18 x XOR drop_bit 3 x"

definition ssig1 :: "u32 \<Rightarrow> u32" where
  "ssig1 x = word_rotr 17 x XOR word_rotr 19 x XOR drop_bit 10 x"

definition bsig0 :: "u32 \<Rightarrow> u32" where
  "bsig0 x = word_rotr 2 x XOR word_rotr 13 x XOR word_rotr 22 x"

definition bsig1 :: "u32 \<Rightarrow> u32" where
  "bsig1 x = word_rotr 6 x XOR word_rotr 11 x XOR word_rotr 25 x"

definition sha_ch :: "u32 \<Rightarrow> u32 \<Rightarrow> u32 \<Rightarrow> u32" where
  "sha_ch x y z = (x AND y) XOR (NOT x AND z)"

definition sha_maj :: "u32 \<Rightarrow> u32 \<Rightarrow> u32 \<Rightarrow> u32" where
  "sha_maj x y z = (x AND y) XOR (x AND z) XOR (y AND z)"

fun sha256_schedule :: "nat \<Rightarrow> u32 list \<Rightarrow> u32 list" where
  "sha256_schedule 0 w = w"
| "sha256_schedule (Suc k) w =
     (let t = length w in
      sha256_schedule k
        (w @ [ssig1 (w ! (t - 2)) + w ! (t - 7) + ssig0 (w ! (t - 15)) + w ! (t - 16)]))"

fun sha256_round :: "sha_state \<Rightarrow> u32 \<times> u32 \<Rightarrow> sha_state" where
  "sha256_round (a, b, c, d, e, f, g, h) (k, w) =
     (let t1 = h + bsig1 e + sha_ch e f g + k + w;
          t2 = bsig0 a + sha_maj a b c
      in (t1 + t2, a, b, c, d + t1, e, f, g))"

fun sha256_add :: "sha_state \<Rightarrow> sha_state \<Rightarrow> sha_state" where
  "sha256_add (a, b, c, d, e, f, g, h) (a', b', c', d', e', f', g', h') =
     (a + a', b + b', c + c', d + d', e + e', f + f', g + g', h + h')"

definition sha256_compress :: "sha_state \<Rightarrow> bytes \<Rightarrow> sha_state" where
  "sha256_compress st block =
     (let w = sha256_schedule 48 (map be32 (chunks 4 block))
      in sha256_add st (foldl sha256_round st (zip sha256_K w)))"

fun sha256_digest :: "sha_state \<Rightarrow> bytes" where
  "sha256_digest (a, b, c, d, e, f, g, h) =
     u32_bytes a @ u32_bytes b @ u32_bytes c @ u32_bytes d
     @ u32_bytes e @ u32_bytes f @ u32_bytes g @ u32_bytes h"

definition sha256 :: "bytes \<Rightarrow> bytes" where
  "sha256 m = sha256_digest (foldl sha256_compress sha256_init (chunks 64 (sha256_pad m)))"

definition hmac_key_block :: "bytes \<Rightarrow> bytes" where
  "hmac_key_block key =
     (let k = (if length key > 64 then sha256 key else key)
      in k @ replicate (64 - length k) 0)"

definition hmac_sha256 :: "bytes \<Rightarrow> bytes \<Rightarrow> bytes" where
  "hmac_sha256 key msg =
     (let k = hmac_key_block key
      in sha256 (map (\<lambda>b. b XOR 0x5c) k @ sha256 (map (\<lambda>b. b XOR 0x36) k @ msg)))"

fun pbkdf2_loop :: "nat \<Rightarrow> bytes \<Rightarrow> bytes \<Rightarrow> bytes \<Rightarrow> bytes" where
  "pbkdf2_loop 0 password u t = t"
| "pbkdf2_loop (Suc n) password u t =
     (let u' = hmac_sha256 password u in pbkdf2_loop n password u' (xor_bytes t u'))"

definition pbkdf2_block :: "bytes \<Rightarrow> bytes \<Rightarrow> nat \<Rightarrow> nat \<Rightarrow> bytes" where
  "pbkdf2_block password salt iterations i =
     (let u1 = hmac_sha256 password (salt @ u32_bytes (of_nat i))
      in pbkdf2_loop (iterations - 1) password u1 u1)"

definition pbkdf2_hmac_sha256 :: "bytes \<Rightarrow> bytes \<Rightarrow> nat \<Rightarrow> nat \<Rightarrow> bytes" where
  "pbkdf2_hmac_sha256 password salt iterations dklen =
     take dklen (concat (map (pbkdf2_block password salt iterations)
                             [1..<Suc ((dklen + 31) div 32)]))"

section \<open>AES-128 in CBC mode, PKCS7 padding\<close>

text \<open>
  Fernet encrypts with AES under a 16-byte key in CBC mode (FIPS 197, SP 800-38A) after
  PKCS7 padding to the 16-byte block. The state is the block's 16 bytes in input order,
  that is column by column.
\<close>

definition aes_sbox :: bytes where
  "aes_sbox = [
    0x63, 0x7c, 0x77, 0x7b, 0xf2, 0x6b, 0x6f, 0xc5, 0x30, 0x01, 0x67, 0x2b, 0xfe, 0xd7, 0xab, 0x76,
    0xca, 0x82, 0xc9, 0x7d, 0xfa, 0x59, 0x47, 0xf0, 0xad, 0xd4, 0xa2, 0xaf, 0x9c, 0xa4, 0x72, 0xc0,
    0xb7, 0xfd, 0x93, 0x26, 0x36, 0x3f, 0xf7, 0xcc, 0x34, 0xa5, 0xe5, 0xf1, 0x71, 0xd8, 0x31, 0x15,
    0x04, 0xc7, 0x23, 0xc3, 0x18, 0x96, 0x05, 0x9a, 0x07, 0x12, 0x80, 0xe2, 0xeb, 0x27, 0xb2, 0x75,
    0x09, 0x83, 0x2c, 0x1a, 0x1b, 0x6e, 0x5a, 0xa0, 0x52, 0x3b, 0xd6, 0xb3, 0x29, 0xe3, 0x2f, 0x84,
    0x53, 0xd1, 0x00, 0xed, 0x20, 0xfc, 0xb1, 0x5b, 0x6a, 0xcb, 0xbe, 0x39, 0x4a, 0x4c, 0x58, 0xcf,
    0xd0, 0xef, 0xaa, 0xfb, 0x43, 0x4d, 0x33, 0x85, 0x45, 0xf9, 0x02, 0x7f, 0x50, 0x3c, 0x9f, 0xa8,
    0x51, 0xa3, 0x40, 0x8f, 0x92, 0x9d, 0x38, 0xf5, 0xbc, 0xb6, 0xda, 0x21, 0x10, 0xff, 0xf3, 0xd2,
    0xcd, 0x0c, 0x13, 0xec, 0x5f, 0x97, 0x44, 0x17, 0xc4, 0xa7, 0x7e, 0x3d, 0x64, 0x5d, 0x19, 0x73,
    0x60, 0x81, 0x4f, 0xdc, 0x22, 0x2a, 0x90, 0x88, 0x46, 0xee, 0xb8, 0x14, 0xde, 0x5e, 0x0b, 0xdb,
    0xe0, 0x32, 0x3a, 0x0a, 0x49, 0x06, 0x24, 0x5c, 0xc2, 0xd3, 0xac, 0x62, 0x91, 0x95, 0xe4, 0x79,
    0xe7, 0xc8, 0x37, 0x6d, 0x8d, 0xd5, 0x4e, 0xa9, 0x6c, 0x56, 0xf4, 0xea, 0x65, 0x7a, 0xae, 0x08,
    0xba, 0x78, 0x25, 0x2e, 0x1c, 0xa6, 0xb4, 0xc6, 0xe8, 0xdd, 0x74, 0x1f, 0x4b, 0xbd, 0x8b, 0x8a,
    0x70, 0x3e, 0xb5, 0x66, 0x48, 0x03, 0xf6, 0x0e, 0x61, 0x35, 0x57, 0xb9, 0x86, 0xc1, 0x1d, 0x9e,
    0xe1, 0xf8, 0x98, 0x11, 0x69, 0xd9, 0x8e, 0x94, 0x9b, 0x1e, 0x87, 0xe9, 0xce, 0x55, 0x28, 0xdf,
    0x8c, 0xa1, 0x89, 0x0d, 0xbf, 0xe6, 0x42, 0x68, 0x41, 0x99, 0x2d, 0x0f, 0xb0, 0x54, 0xbb, 0x16]"

definition aes_inv_sbox :: bytes where
  "aes_inv_sbox = [
    0x52, 0x09, 0x6a, 0xd5, 0x30, 0x36, 0xa5, 0x38, 0xbf, 0x40, 0xa3, 0x9e, 0x81, 0xf3, 0xd7, 0xfb,
    0x7c, 0xe3, 0x39, 0x82, 0x9b, 0x2f, 0xff, 0x87, 0x34, 0x8e, 0x43, 0x44, 0xc4, 0xde, 0xe9, 0xcb,
    0x54, 0x7b, 0x94, 0x32, 0xa6, 0xc2, 0x23, 0x3d, 0xee, 0x4c, 0x95, 0x0b, 0x42, 0xfa, 0xc3, 0x4e,
    0x08, 0x2e, 0xa1, 0x66, 0x28, 0xd9, 0x24, 0xb2, 0x76, 0x5b, 0xa2, 0x49, 0x6d, 0x8b, 0xd1, 0x25,
    0x72, 0xf8, 0xf6, 0x64, 0x86, 0x68, 0x98, 0x16, 0xd4, 0xa4, 0x5c, 0xcc, 0x5d, 0x65, 0xb6, 0x92,
    0x6c, 0x70, 0x48, 0x50, 0xfd, 0xed, 0xb9, 0xda, 0x5e, 0x15, 0x46, 0x57, 0xa7, 0x8d, 0x9d, 0x84,
    0x90, 0xd8, 0xab, 0x00, 0x8c, 0xbc, 0xd3, 0x0a, 0xf7, 0xe4, 0x58, 0x05, 0xb8, 0xb3, 0x45, 0x06,
    0xd0, 0x2c, 0x1e, 0x8f, 0xca, 0x3f, 0x0f, 0x02, 0xc1, 0xaf, 0xbd, 0x03, 0x01, 0x13, 0x8a, 0x6b,
    0x3a, 0x91, 0x11, 0x41, 0x4f, 0x67, 0xdc, 0xea, 0x97, 0xf2, 0xcf, 0xce, 0xf0, 0xb4, 0xe6, 0x73,
    0x96, 0xac, 0x74, 0x22, 0xe7, 0xad, 0x35, 0x85, 0xe2, 0xf9, 0x37, 0xe8, 0x1c, 0x75, 0xdf, 0x6e,
    0x47, 0xf1, 0x1a, 0x71, 0x1d, 0x29, 0xc5, 0x89, 0x6f, 0xb7, 0x62, 0x0e, 0xaa, 0x18, 0xbe, 0x1b,
    0xfc, 0x56, 0x3e, 0x4b, 0xc6, 0xd2, 0x79, 0x20, 0x9a, 0xdb, 0xc0, 0xfe, 0x78, 0xcd, 0x5a, 0xf4,
    0x1f, 0xdd, 0xa8, 0x33, 0x88, 0x07, 0xc7, 0x31, 0xb1, 0x12, 0x10, 0x59, 0x27, 0x80, 0xec, 0x5f,
    0x60, 0x51, 0x7f, 0xa9, 0x19, 0xb5, 0x4a, 0x0d, 0x2d, 0xe5, 0x7a, 0x9f, 0x93, 0xc9, 0x9c, 0xef,
    0xa0, 0xe0, 0x3b, 0x4d, 0xae, 0x2a, 0xf5, 0xb0, 0xc8, 0xeb, 0xbb, 0x3c, 0x83, 0x53, 0x99, 0x61,
    0x17, 0x2b, 0x04, 0x7e, 0xba, 0x77, 0xd6, 0x26, 0xe1, 0x69, 0x14, 0x63, 0x55, 0x21, 0x0c, 0x7d]"

definition sub_bytes :: "bytes \<Rightarrow> bytes" where
  "sub_bytes s = map (\<lambda>b. aes_sbox ! unat b) s"

definition inv_sub_bytes :: "bytes \<Rightarrow> bytes" where
  "inv_sub_bytes s = map (\<lambda>b. aes_inv_sbox ! unat b) s"

definition shift_rows :: "bytes \<Rightarrow> bytes" where
  "shift_rows s = map (\<lambda>i. s ! i) [0, 5, 10, 15, 4, 9, 14, 3, 8, 13, 2, 7, 12, 1, 6, 11]"

definition inv_shift_rows :: "bytes \<Rightarrow> bytes" where
  "inv_shift_rows s = map (\<lambda>i. s ! i) [0, 13, 10, 7, 4, 1, 14, 11, 8, 5, 2, 15, 12, 9, 6, 3]"

definition xtime :: "byte \<Rightarrow> byte" where
  "xtime a = push_bit 1 a XOR (if bit a 7 then 0x1b else 0)"

definition gmul3 :: "byte \<Rightarrow> byte" where
  "gmul3 a = xtime a XOR a"

definition gmul9 :: "byte \<Rightarrow> byte" where
  "gmul9 a = xtime (xtime (xtime a)) XOR a"

definition gmul11 :: "byte \<Rightarrow> byte" where
  "gmul11 a = xtime (xtime (xtime a)) XOR xtime a XOR a"

definition gmul13 :: "byte \<Rightarrow> byte" where
  "gmul13 a = xtime (xtime (xtime a)) XOR xtime (xtime a) XOR a"

definition gmul14 :: "byte \<Rightarrow> byte" where
  "gmul14 a = xtime (xtime (xtime a)) XOR xtime (xtime a) XOR xtime a"

definition mix_column :: "bytes \<Rightarrow> bytes" where
  "mix_column col =
     (case col of
        [a, b, c, d] \<Rightarrow>
          [xtime a XOR gmul3 b XOR c XOR d,
           a XOR xtime b XOR gmul3 c XOR d,
           a XOR b XOR xtime c XOR gmul3 d,
           gmul3 a XOR b XOR c XOR xtime d]
      | _ \<Rightarrow> col)"

definition inv_mix_column :: "bytes \<Rightarrow> bytes" where
  "inv_mix_column col =
     (case col of
        [a, b, c, d] \<Rightarrow>
          [gmul14 a XOR gmul11 b XOR gmul13 c XOR gmul9 d,
           gmul9 a XOR gmul14 b XOR gmul11 c XOR gmul13 d,
           gmul13 a XOR gmul9 b XOR gmul14 c XOR gmul11 d,
           gmul11 a XOR gmul13 b XOR gmul9 c XOR gmul14 d]
      | _ \<Rightarrow> col)"

definition mix_columns :: "bytes \<Rightarrow> bytes" where
  "mix_columns s = concat (map mix_column (chunks 4 s))"

definition inv_mix_columns :: "bytes \<Rightarrow> bytes" where
  "inv_mix_columns s = concat (map inv_mix_column (chunks 4 s))"

definition add_round_key :: "bytes \<Rightarrow> bytes \<Rightarrow> bytes" where
  "add_round_key rk s = xor_bytes s rk"

definition aes_rcon :: bytes where
  "aes_rcon = [0x01, 0x02, 0x04, 0x08, 0x10, 0x20, 0x40, 0x80, 0x1b, 0x36]"

fun expand_key_words :: "nat \<Rightarrow> bytes list \<Rightarrow> bytes list" where
  "expand_key_words 0 w = w"
| "expand_key_words (Suc k) w =
     (let i = length w;
          temp = w ! (i - 1);
          temp' = (if i mod 4 = 0
                   then xor_bytes (sub_bytes (rotate1 temp)) [aes_rcon ! (i div 4 - 1), 0, 0, 0]
                   else temp)
      in expand_key_words k (w @ [xor_bytes (w ! (i - 4)) temp']))"

definition key_expansion :: "bytes \<Rightarrow> bytes list" where
  "key_expansion key = map concat (chunks 4 (expand_key_words 40 (chunks 4 key)))"

definition aes_round :: "bytes \<Rightarrow> bytes \<Rightarrow> bytes" where
  "aes_round rk s = add_round_key rk (mix_columns (shift_rows (sub_bytes s)))"

definition aes_inv_round :: "bytes \<Rightarrow> bytes \<Rightarrow> bytes" where
  "aes_inv_round rk s = inv_sub_bytes (inv_shift_rows (inv_mix_columns (add_round_key rk s)))"

definition aes_encrypt_block :: "bytes \<Rightarrow> bytes \<Rightarrow> bytes" where
  "aes_encrypt_block key block =
     (let rks = key_expansion key;
          s = foldl (\<lambda>s rk. aes_round rk s) (add_round_key (rks ! 0) block) (take 9 (drop 1 rks))
      in add_round_key (rks ! 10) (shift_rows (sub_bytes s)))"

definition aes_decrypt_block :: "bytes \<Rightarrow> bytes \<Rightarrow> bytes" where
  "aes_decrypt_block key block =
     (let rks = key_expansion key;
          s = inv_sub_bytes (inv_shift_rows (add_round_key (rks ! 10) block));
          s' = foldl (\<lambda>s rk. aes_inv_round rk s) s (rev (take 9 (drop 1 rks)))
      in add_round_key (rks ! 0) s')"

fun cbc_encrypt :: "bytes \<Rightarrow> bytes \<Rightarrow> bytes list \<Rightarrow> bytes list" where
  "cbc_encrypt key prev [] = []"
| "cbc_encrypt key prev (p # ps) =
     (let c = aes_encrypt_block key (xor_bytes p prev) in c # cbc_encrypt key c ps)"

fun cbc_decrypt :: "bytes \<Rightarrow> bytes \<Rightarrow> bytes list \<Rightarrow> bytes list" where
  "cbc_decrypt key prev [] = []"
| "cbc_decrypt key prev (c # cs) =
     xor_bytes (aes_decrypt_block key c) prev # cbc_decrypt key c cs"

definition pkcs7_pad :: "bytes \<Rightarrow> bytes" where
  "pkcs7_pad m = (let n = 16 - length m mod 16 in m @ replicate n (of_nat n))"

definition pkcs7_unpad :: "bytes \<Rightarrow> exn + bytes" where
  "pkcs7_unpad m =
     (if m = [] \<or> length m mod 16 \<noteq> 0 then Inl ValueError
      else let n = unat (last m) in
        if n = 0 \<or> n > 16 \<or> drop (length m - n) m \<noteq> replicate n (last m)
        then Inl ValueError
        else Inr (take (length m - n) m))"

section \<open>Fernet\<close>

text \<open>
  \<open>cryptography.fernet.Fernet\<close>. The key is the URL-safe base64 text of 32 bytes: the
  first 16 sign, the last 16 encrypt. A token is the URL-safe base64 text of
  \<open>0x80 || timestamp (8 bytes) || IV (16 bytes) || ciphertext || HMAC (32 bytes)\<close>.
  \<open>encrypt\<close> reads the clock and 16 bytes of \<open>os.urandom\<close>; both are arguments here.
  \<open>decrypt\<close> is called without a time-to-live, so it never reads the timestamp.
\<close>

record fernet =
  signing_key :: bytes
  encryption_key :: bytes

definition Fernet :: "bytes \<Rightarrow> exn + fernet" where
  "Fernet key =
     (case urlsafe_b64decode key of
        Inl e \<Rightarrow> Inl ValueError
      | Inr k \<Rightarrow>
          if length k \<noteq> 32 then Inl ValueError
          else Inr \<lparr>signing_key = take 16 k, encryption_key = drop 16 k\<rparr>)"

definition fernet_encrypt :: "fernet \<Rightarrow> 64 word \<Rightarrow> bytes \<Rightarrow> bytes \<Rightarrow> bytes" where
  "fernet_encrypt f current_time iv data =
     (let ciphertext = concat (cbc_encrypt (encryption_key f) iv (chunks 16 (pkcs7_pad data)));
          basic_parts = [0x80] @ u64_bytes current_time @ iv @ ciphertext;
          hmac = hmac_sha256 (signing_key f) basic_parts
      in urlsafe_b64encode (basic_parts @ hmac))"

definition fernet_decrypt :: "fernet \<Rightarrow> bytes \<Rightarrow> exn + bytes" where
  "fernet_decrypt f token =
     (case urlsafe_b64decode token of
        Inl e \<Rightarrow> Inl InvalidToken
      | Inr data \<Rightarrow>
          if data = [] \<or> hd data \<noteq> 0x80 then Inl InvalidToken
          else if length data < 9 then Inl InvalidToken
          else if hmac_sha256 (signing_key f) (take (length data - 32) data)
                  \<noteq> drop (length data - 32) data
          then Inl InvalidToken
          else
            (let iv = take 16 (drop 9 data);
                 ciphertext = drop 25 (take (length data - 32) data)
             in if length iv \<noteq> 16 then Inl ValueError
                else if length ciphertext mod 16 \<noteq> 0 then Inl InvalidToken
                else (case pkcs7_unpad
                             (concat (cbc_decrypt (encryption_key f) iv (chunks 16 ciphertext))) of
                        Inl e \<Rightarrow> Inl InvalidToken
                      | Inr plaintext \<Rightarrow> Inr plaintext)))"

section \<open>Module json\<close>

text \<open>
  A decoded JSON document. A Python \<open>dict\<close> is an association list in insertion order
  with distinct keys. A float is kept as the literal it was read from; the vault holds
  none. \<open>json.dumps\<close> runs with its defaults: separators \<open>", "\<close> and \<open>": "\<close>, and
  \<open>ensure_ascii\<close>, so every character outside 0x20..0x7E, the quote and the backslash are
  written as escapes.
\<close>

datatype json = JNull | JBool bool | JInt int | JFloat string | JStr string
  | JList "json list" | JDict "(string \<times> json) list"

definition QUOTE :: char where
  "QUOTE = CHR 0x22"

definition BACKSLASH :: char where
  "BACKSLASH = CHR 0x5C"

definition hex_digit :: "nat \<Rightarrow> char" where
  "hex_digit n = ''0123456789abcdef'' ! n"

definition escape_char :: "char \<Rightarrow> string" where
  "escape_char c =
     (if c = QUOTE then [BACKSLASH, QUOTE]
      else if c = BACKSLASH then [BACKSLASH, BACKSLASH]
      else if c = CHR 0x0A then [BACKSLASH, CHR ''n'']
      else if c = CHR 0x0D then [BACKSLASH, CHR ''r'']
      else if c = CHR 0x09 then [BACKSLASH, CHR ''t'']
      else if c = CHR 0x08 then [BACKSLASH, CHR ''b'']
      else if c = CHR 0x0C then [BACKSLASH, CHR ''f'']
      else if (0x20::nat) \<le> of_char c \<and> (of_char c :: nat) \<le> 0x7E then [c]
      else [BACKSLASH, CHR ''u'', CHR ''0'', CHR ''0'',
            hex_digit (of_char c div 16), hex_digit (of_char c mod 16)])"

definition encode_basestring_ascii :: "string \<Rightarrow> string" where
  "encode_basestring_ascii s = [QUOTE] @ concat (map escape_char s) @ [QUOTE]"

fun nat_digits :: "nat \<Rightarrow> string" where
  "nat_digits n =
     (if n < 10 then [hex_digit n] else nat_digits (n div 10) @ [hex_digit (n mod 10)])"

definition int_repr :: "int \<Rightarrow> string" where
  "int_repr i = (if i < 0 then CHR ''-'' # nat_digits (nat (- i)) else nat_digits (nat i))"

fun join :: "string \<Rightarrow> string list \<Rightarrow> string" where
  "join sep [] = []"
| "join sep [x] = x"
| "join sep (x # y # ys) = x @ sep @ join sep (y # ys)"

fun json_dumps :: "json \<Rightarrow> string" where
  "json_dumps JNull = ''null''"
| "json_dumps (JBool b) = (if b then ''true'' else ''false'')"
| "json_dumps (JInt i) = int_repr i"
| "json_dumps (JFloat lexeme) = lexeme"
| "json_dumps (JStr s) = encode_basestring_ascii s"
| "json_dumps (JList xs) = ''['' @ join '', '' (map json_dumps xs) @ '']''"
| "json_dumps (JDict kvs) =
     ''{'' @ join '', '' (map (\<lambda>(k, v). encode_basestring_ascii k @ '': '' @ json_dumps v) kvs)
     @ ''}''"

text \<open>
  \<open>json.loads\<close> on \<open>bytes\<close>: \<open>detect_encoding\<close>, decoding, then
  \<open>JSONDecoder.decode\<close>, that is \<open>scan_once\<close> between optional whitespace, with nothing
  left after it. The scanner takes fuel that bounds how deep and how long it may recurse;
  \<open>json_decode\<close> hands it enough for any text of the given length.
  Outside the model, marked \<open>NotModelled\<close>: UTF-16 and UTF-32 input, a byte-order
  mark, and code points from 256 on (in a UTF-8 sequence or a \<open>\u\<close> escape).
  The interpreter's own limits are not part of the model either: Python gives up on a
  text nested deeper than its recursion limit and on an integer of more digits than its
  cap, where the scanner below reads on.
\<close>

definition starts_with :: "'a list \<Rightarrow> 'a list \<Rightarrow> bool" where
  "starts_with p s = (take (length p) s = p)"

definition detect_encoding :: "bytes \<Rightarrow> string" where
  "detect_encoding b =
     (if starts_with [0x00, 0x00, 0xFE, 0xFF] b \<or> starts_with [0xFF, 0xFE, 0x00, 0x00] b
      then ''utf-32''
      else if starts_with [0xFE, 0xFF] b \<or> starts_with [0xFF, 0xFE] b then ''utf-16''
      else if starts_with [0xEF, 0xBB, 0xBF] b then ''utf-8-sig''
      else if length b \<ge> 4 then
        (if b ! 0 = 0 then (if b ! 1 \<noteq> 0 then ''utf-16-be'' else ''utf-32-be'')
         else if b ! 1 = 0 then (if b ! 2 \<noteq> 0 \<or> b ! 3 \<noteq> 0 then ''utf-16-le'' else ''utf-32-le'')
         else ''utf-8'')
      else if length b = 2 then
        (if b ! 0 = 0 then ''utf-16-be'' else if b ! 1 = 0 then ''utf-16-le'' else ''utf-8'')
      else ''utf-8'')"

fun utf8_decode :: "bytes \<Rightarrow> exn + string" where
  "utf8_decode [] = Inr []"
| "utf8_decode (b # bs) =
     (if b < 0x80 then
        (case utf8_decode bs of Inl e \<Rightarrow> Inl e | Inr s \<Rightarrow> Inr (char_of (unat b) # s))
      else if b = 0xC2 \<or> b = 0xC3 then
        (case bs of
           [] \<Rightarrow> Inl UnicodeDecodeError
         | c # bs' \<Rightarrow>
             if c AND 0xC0 \<noteq> 0x80 then Inl UnicodeDecodeError
             else (case utf8_decode bs' of
                     Inl e \<Rightarrow> Inl e
                   | Inr s \<Rightarrow> Inr (char_of (unat (push_bit 6 (b AND 3) OR (c AND 0x3F))) # s)))
      else if 0xC4 \<le> b \<and> b \<le> 0xF4 then Inl NotModelled
      else Inl UnicodeDecodeError)"

definition is_ws :: "char \<Rightarrow> bool" where
  "is_ws c = (c = CHR '' '' \<or> c = CHR 0x09 \<or> c = CHR 0x0A \<or> c = CHR 0x0D)"

definition skip_ws :: "string \<Rightarrow> string" where
  "skip_ws s = dropWhile is_ws s"

definition hex_val :: "char \<Rightarrow> nat option" where
  "hex_val c =
     (let n = of_char c :: nat in
      if 48 \<le> n \<and> n \<le> 57 then Some (n - 48)
      else if 97 \<le> n \<and> n \<le> 102 then Some (n - 87)
      else if 65 \<le> n \<and> n \<le> 70 then Some (n - 55)
      else None)"

definition unescape :: "char \<Rightarrow> char option" where
  "unescape e =
     (if e = QUOTE then Some QUOTE
      else if e = BACKSLASH then Some BACKSLASH
      else if e = CHR ''/'' then Some (CHR ''/'')
      else if e = CHR ''b'' then Some (CHR 0x08)
      else if e = CHR ''f'' then Some (CHR 0x0C)
      else if e = CHR ''n'' then Some (CHR 0x0A)
      else if e = CHR ''r'' then Some (CHR 0x0D)
      else if e = CHR ''t'' then Some (CHR 0x09)
      else None)"

definition cons_result :: "char \<Rightarrow> exn + string \<times> string \<Rightarrow> exn + string \<times> string" where
  "cons_result c r = (case r of Inl e \<Rightarrow> Inl e | Inr (s, rest) \<Rightarrow> Inr (c # s, rest))"

text \<open>\<open>scanstring\<close> starts after the opening quote and returns the string and the text
  after the closing quote.\<close>

fun scanstring :: "string \<Rightarrow> exn + string \<times> string" where
  "scanstring [] = Inl JSONDecodeError"
| "scanstring (c # cs) =
     (if c = QUOTE then Inr ([], cs)
      else if c = BACKSLASH then
        (case cs of
           [] \<Rightarrow> Inl JSONDecodeError
         | e # cs' \<Rightarrow>
             if e = CHR ''u'' then
               (case cs' of
                  h1 # h2 # h3 # h4 # cs'' \<Rightarrow>
                    (case (hex_val h1, hex_val h2, hex_val h3, hex_val h4) of
                       (Some d1, Some d2, Some d3, Some d4) \<Rightarrow>
                         (let n = ((d1 * 16 + d2) * 16 + d3) * 16 + d4 in
                          if n < 256 then cons_result (char_of n) (scanstring cs'')
                          else Inl NotModelled)
                     | _ \<Rightarrow> Inl JSONDecodeError)
                | _ \<Rightarrow> Inl JSONDecodeError)
             else
               (case unescape e of
                  None \<Rightarrow> Inl JSONDecodeError
                | Some u \<Rightarrow> cons_result u (scanstring cs')))
      else if (of_char c :: nat) < 0x20 then Inl JSONDecodeError
      else cons_result c (scanstring cs))"

definition is_digit :: "char \<Rightarrow> bool" where
  "is_digit c = (48 \<le> (of_char c :: nat) \<and> (of_char c :: nat) \<le> 57)"

definition digits_val :: "string \<Rightarrow> nat" where
  "digits_val ds = foldl (\<lambda>acc c. acc * 10 + (of_char c - 48)) 0 ds"

text \<open>The number pattern \<open>(-?(?:0|[1-9]\d*))(\.\d+)?([eE][-+]?\d+)?\<close>: an integer when
  neither the fraction nor the exponent matches, a float otherwise.\<close>

definition match_int_part :: "string \<Rightarrow> (string \<times> string) option" where
  "match_int_part s =
     (case s of
        [] \<Rightarrow> None
      | c # cs \<Rightarrow>
          if c = CHR ''0'' then Some ([c], cs)
          else if is_digit c then Some (takeWhile is_digit s, dropWhile is_digit s)
          else None)"

definition match_frac :: "string \<Rightarrow> string \<times> string" where
  "match_frac s =
     (case s of
        c # d # cs \<Rightarrow>
          if c = CHR ''.'' \<and> is_digit d
          then (c # takeWhile is_digit (d # cs), dropWhile is_digit (d # cs))
          else ([], s)
      | _ \<Rightarrow> ([], s))"

definition match_exp :: "string \<Rightarrow> string \<times> string" where
  "match_exp s =
     (case s of
        e # cs \<Rightarrow>
          if e = CHR ''e'' \<or> e = CHR ''E'' then
            (let (sign, ds) = (case cs of
                                 g # cs' \<Rightarrow> if g = CHR ''-'' \<or> g = CHR ''+'' then ([g], cs')
                                            else ([], cs)
                               | [] \<Rightarrow> ([], cs))
             in if ds \<noteq> [] \<and> is_digit (hd ds)
                then (e # sign @ takeWhile is_digit ds, dropWhile is_digit ds)
                else ([], s))
          else ([], s)
      | [] \<Rightarrow> ([], s))"

definition match_number :: "string \<Rightarrow> exn + json \<times> string" where
  "match_number s =
     (let (neg, s1) = (case s of c # cs \<Rightarrow> if c = CHR ''-'' then (True, cs) else (False, s)
                             | [] \<Rightarrow> (False, s))
      in case match_int_part s1 of
           None \<Rightarrow> Inl JSONDecodeError
         | Some (ip, s2) \<Rightarrow>
             (let (fp, s3) = match_frac s2; (ep, s4) = match_exp s3 in
              if fp = [] \<and> ep = []
              then Inr (JInt (if neg then - int (digits_val ip) else int (digits_val ip)), s2)
              else Inr (JFloat ((if neg then ''-'' else []) @ ip @ fp @ ep), s4)))"

text \<open>A JSON object becomes \<open>dict(pairs)\<close>: a repeated key keeps its first place and its
  last value.\<close>

definition dict_of_pairs :: "(string \<times> json) list \<Rightarrow> (string \<times> json) list" where
  "dict_of_pairs ps = foldl (\<lambda>d (k, v). AList.update k v d) [] ps"

fun scan_once :: "nat \<Rightarrow> string \<Rightarrow> exn + json \<times> string"
  and scan_array :: "nat \<Rightarrow> string \<Rightarrow> exn + json list \<times> string"
  and scan_object :: "nat \<Rightarrow> string \<Rightarrow> exn + (string \<times> json) list \<times> string"
where
  "scan_once 0 s = Inl RecursionError"
| "scan_once (Suc fuel) s =
     (case s of
        [] \<Rightarrow> Inl JSONDecodeError
      | c # cs \<Rightarrow>
          if c = QUOTE then
            (case scanstring cs of Inl e \<Rightarrow> Inl e | Inr (str, rest) \<Rightarrow> Inr (JStr str, rest))
          else if c = CHR ''{'' then
            (let s1 = skip_ws cs in
             if starts_with ''}'' s1 then Inr (JDict [], drop 1 s1)
             else (case scan_object fuel s1 of
                     Inl e \<Rightarrow> Inl e
                   | Inr (ps, rest) \<Rightarrow> Inr (JDict (dict_of_pairs ps), rest)))
          else if c = CHR ''['' then
            (let s1 = skip_ws cs in
             if starts_with '']'' s1 then Inr (JList [], drop 1 s1)
             else (case scan_array fuel s1 of
                     Inl e \<Rightarrow> Inl e
                   | Inr (xs, rest) \<Rightarrow> Inr (JList xs, rest)))
          else if starts_with ''null'' s then Inr (JNull, drop 4 s)
          else if starts_with ''true'' s then Inr (JBool True, drop 4 s)
          else if starts_with ''false'' s then Inr (JBool False, drop 5 s)
          else if starts_with ''NaN'' s then Inr (JFloat ''NaN'', drop 3 s)
          else if starts_with ''Infinity'' s then Inr (JFloat ''Infinity'', drop 8 s)
          else if starts_with ''-Infinity'' s then Inr (JFloat ''-Infinity'', drop 9 s)
          else match_number s)"
| "scan_array 0 s = Inl RecursionError"
| "scan_array (Suc fuel) s =
     (case scan_once fuel s of
        Inl e \<Rightarrow> Inl e
      | Inr (x, s1) \<Rightarrow>
          (let s2 = skip_ws s1 in
           if starts_with '']'' s2 then Inr ([x], drop 1 s2)
           else if starts_with '','' s2 then
             (case scan_array fuel (skip_ws (drop 1 s2)) of
                Inl e \<Rightarrow> Inl e
              | Inr (xs, rest) \<Rightarrow> Inr (x # xs, rest))
           else Inl JSONDecodeError))"
| "scan_object 0 s = Inl RecursionError"
| "scan_object (Suc fuel) s =
     (if \<not> starts_with [QUOTE] s then Inl JSONDecodeError
      else case scanstring (drop 1 s) of
        Inl e \<Rightarrow> Inl e
      | Inr (k, s1) \<Rightarrow>
          (let s2 = skip_ws s1 in
           if \<not> starts_with '':'' s2 then Inl JSONDecodeError
           else case scan_once fuel (skip_ws (drop 1 s2)) of
             Inl e \<Rightarrow> Inl e
           | Inr (v, s3) \<Rightarrow>
               (let s4 = skip_ws s3 in
                if starts_with ''}'' s4 then Inr ([(k, v)], drop 1 s4)
                else if starts_with '','' s4 then
                  (case scan_object fuel (skip_ws (drop 1 s4)) of
                     Inl e \<Rightarrow> Inl e
                   | Inr (ps, rest) \<Rightarrow> Inr ((k, v) # ps, rest))
                else Inl JSONDecodeError)))"

definition json_decode :: "string \<Rightarrow> exn + json" where
  "json_decode s =
     (case scan_once (2 * length s + 1) (skip_ws s) of
        Inl e \<Rightarrow> Inl e
      | Inr (obj, rest) \<Rightarrow> if skip_ws rest = [] then Inr obj else Inl JSONDecodeError)"

definition json_loads_modelled :: "bytes \<Rightarrow> exn + json" where
  "json_loads_modelled b =
     (if detect_encoding b \<noteq> ''utf-8'' then Inl NotModelled
      else case utf8_decode b of Inl e \<Rightarrow> Inl e | Inr s \<Rightarrow> json_decode s)"

text \<open>\<open>json.loads\<close>. What it answers for a text the model does not follow is an
  argument, \<open>beyond\<close>: a value or an exception, whichever Python comes to there.\<close>

definition json_loads :: "(bytes \<Rightarrow> exn + json) \<Rightarrow> bytes \<Rightarrow> exn + json" where
  "json_loads beyond b =
     (if json_loads_modelled b = Inl NotModelled then beyond b else json_loads_modelled b)"

section \<open>Console markup: rich\<close>










section \<open>The vault: mypw.py\<close>

text \<open>
  What the program reads from outside is an argument of the model: the bytes
  \<open>os.urandom\<close> returns (a stream, read from its start), the clock Fernet stamps a token
  with, the draws of \<open>secrets.choice\<close>, and the answers typed at the prompts. What it
  changes is returned: the file at \<open>VAULT_PATH\<close> (\<open>None\<close> when there is none), the lines
  printed on the console, the clipboard.
\<close>

definition SALT_SIZE :: nat where
  "SALT_SIZE = 16"

definition KDF_ITERATIONS :: nat where
  "KDF_ITERATIONS = 480000"

type_synonym entropy = "nat \<Rightarrow> byte"

definition urandom :: "entropy \<Rightarrow> nat \<Rightarrow> bytes" where
  "urandom rng n = map rng [0..<n]"

definition advance :: "nat \<Rightarrow> entropy \<Rightarrow> entropy" where
  "advance n rng = (\<lambda>i. rng (n + i))"

text \<open>\<open>derive_key\<close> (lines 31-39).\<close>

definition derive_key :: "string \<Rightarrow> bytes \<Rightarrow> bytes" where
  "derive_key password salt =
     urlsafe_b64encode (pbkdf2_hmac_sha256 (str_encode password) salt KDF_ITERATIONS 32)"

text \<open>\<open>encrypt_data\<close> (lines 41-48). The salt is the first \<open>SALT_SIZE\<close> bytes of the
  stream, Fernet's IV the 16 after them.\<close>

definition encrypt_data :: "entropy \<Rightarrow> 64 word \<Rightarrow> json \<Rightarrow> string \<Rightarrow> exn + bytes" where
  "encrypt_data rng now data password =
     (let salt = urandom rng SALT_SIZE;
          key = derive_key password salt
      in case Fernet key of
           Inl e \<Rightarrow> Inl e
         | Inr f \<Rightarrow>
             (let encrypted_data =
                    fernet_encrypt f now (urandom (advance SALT_SIZE rng) 16)
                      (str_encode (json_dumps data))
              in Inr (b64encode (salt @ encrypted_data))))"

text \<open>\<open>decrypt_data\<close> (lines 50-63): the body of the \<open>try\<close>, then the handler, which
  turns every exception into one printed line and the result \<open>None\<close>.\<close>

definition decrypt_data_try :: "(bytes \<Rightarrow> exn + json) \<Rightarrow> bytes \<Rightarrow> string \<Rightarrow> exn + json" where
  "decrypt_data_try beyond encrypted_blob password =
     (case b64decode encrypted_blob of
        Inl e \<Rightarrow> Inl e
      | Inr decoded_blob \<Rightarrow>
          (let salt = take SALT_SIZE decoded_blob;
               encrypted_data = drop SALT_SIZE decoded_blob;
               key = derive_key password salt
           in case Fernet key of
                Inl e \<Rightarrow> Inl e
              | Inr f \<Rightarrow>
                  (case fernet_decrypt f encrypted_data of
                     Inl e \<Rightarrow> Inl e
                   | Inr decrypted_data \<Rightarrow> json_loads beyond decrypted_data)))"

definition DECRYPTION_FAILED :: string where
  "DECRYPTION_FAILED =
     ''[bold red]Error: Decryption failed. Incorrect master password or corrupt vault.[/bold red]''"

definition decrypt_data ::
  "(bytes \<Rightarrow> exn + json) \<Rightarrow> bytes \<Rightarrow> string \<Rightarrow> json option \<times> string list" where
  "decrypt_data beyond encrypted_blob password =
     (case decrypt_data_try beyond encrypted_blob password of
        Inr data \<Rightarrow> (Some data, [])
      | Inl e \<Rightarrow> (None, [DECRYPTION_FAILED]))"

text \<open>\<open>save_vault\<close> (lines 138-142). \<open>open(VAULT_PATH, "wb")\<close> creates the file or cuts
  it to length 0; the bytes written reach it afterwards. \<open>save_vault_states\<close> lists what
  the path holds, in order: before the call, after \<open>open\<close>, after the write.
  \<open>save_vault\<close> is where it ends.\<close>

type_synonym vault_file = "bytes option"

definition save_vault_states ::
  "entropy \<Rightarrow> 64 word \<Rightarrow> json \<Rightarrow> string \<Rightarrow> vault_file \<Rightarrow> exn + vault_file list" where
  "save_vault_states rng now data password file =
     (case encrypt_data rng now data password of
        Inl e \<Rightarrow> Inl e
      | Inr encrypted_vault \<Rightarrow> Inr [file, Some [], Some encrypted_vault])"

definition save_vault ::
  "entropy \<Rightarrow> 64 word \<Rightarrow> json \<Rightarrow> string \<Rightarrow> vault_file \<Rightarrow> exn + vault_file" where
  "save_vault rng now data password file =
     (case save_vault_states rng now data password file of
        Inl e \<Rightarrow> Inl e
      | Inr states \<Rightarrow> Inr (last states))"

text \<open>\<open>MyPW.generate_password\<close> (lines 175-191). \<open>secrets.choice(alphabet)\<close> is
  \<open>alphabet[randbelow(len(alphabet))]\<close>; draw \<open>i\<close> of the generator is reduced to an
  index of the alphabet.\<close>

definition ascii_uppercase :: string where
  "ascii_uppercase = ''ABCDEFGHIJKLMNOPQRSTUVWXYZ''"

definition ascii_lowercase :: string where
  "ascii_lowercase = ''abcdefghijklmnopqrstuvwxyz''"

definition digits :: string where
  "digits = ''0123456789''"

definition punctuation :: string where
  "punctuation = map char_of ([33..<48] @ [58..<65] @ [91..<97] @ [123..<127])"

definition secrets_choice :: "nat \<Rightarrow> string \<Rightarrow> char" where
  "secrets_choice draw alphabet = alphabet ! (draw mod length alphabet)"

definition NO_CHARACTER_TYPES :: string where
  "NO_CHARACTER_TYPES =
     ''[bold red]Cannot generate password with no character types selected.[/bold red]''"

definition generate_password ::
  "(nat \<Rightarrow> nat) \<Rightarrow> int \<Rightarrow> bool \<Rightarrow> bool \<Rightarrow> bool \<Rightarrow> bool \<Rightarrow> string option \<times> string list" where
  "generate_password draws len include_symbols include_uppercase include_lowercase
       include_numbers =
     (let alphabet = (if include_uppercase then ascii_uppercase else [])
                     @ (if include_lowercase then ascii_lowercase else [])
                     @ (if include_numbers then digits else [])
                     @ (if include_symbols then punctuation else [])
      in if alphabet = [] then (None, [NO_CHARACTER_TYPES])
         else (Some (map (\<lambda>i. secrets_choice (draws i) alphabet) [0..<nat len]), []))"

















section \<open>What a vault holds\<close>




text \<open>Auxiliary notions for the proofs about the scanner: the characters \<open>json.dumps\<close>
  writes, the characters a value it writes can start with, and one item of a dictionary
  as it is written.\<close>

definition printable :: "char \<Rightarrow> bool" where
  "printable c = ((0x20::nat) \<le> of_char c \<and> (of_char c :: nat) \<le> 0x7E)"


definition dumps_item :: "string \<times> json \<Rightarrow> string" where
  "dumps_item kv = encode_basestring_ascii (fst kv) @ CHR '':'' # CHR '' '' # json_dumps (snd kv)"

section \<open>Properties of base64\<close>

text \<open>Decoding inverts encoding, for the standard and for the URL-safe alphabet, and
  the text of \<open>n\<close> bytes has \<open>4 * ((n + 2) div 3)\<close> characters.\<close>

lemma and_3: "(a::byte) AND 3 = take_bit 2 a"
  by (simp add: take_bit_eq_mask mask_eq_exp_minus_1)
lemma and_15: "(a::byte) AND 15 = take_bit 4 a"
  by (simp add: take_bit_eq_mask mask_eq_exp_minus_1)
lemma and_63: "(a::byte) AND 63 = take_bit 6 a"
  by (simp add: take_bit_eq_mask mask_eq_exp_minus_1)
lemma Suc_Suc_diff2: "2 \<le> n \<Longrightarrow> Suc (Suc (n - 2)) = n"
  by arith
lemmas b64_bits = bit_simps and_3 and_15 and_63 Suc_Suc_diff2 not_less

lemma i1: "push_bit 2 (drop_bit 2 a) OR drop_bit 4 (push_bit 4 (a AND 3) OR drop_bit 4 b) = (a::byte)"
  apply (rule bit_word_eqI)
  subgoal for n
    by (cases "n < 2"; cases "n < 4"; cases "n < 6") (auto simp: b64_bits dest: bit_imp_le_length)
  done
lemma i2: "push_bit 4 ((push_bit 4 (a AND 3) OR drop_bit 4 b) AND 15) OR drop_bit 2 (push_bit 2 (b AND 15) OR drop_bit 6 c) = (b::byte)"
  apply (rule bit_word_eqI)
  subgoal for n
    by (cases "n < 2"; cases "n < 4"; cases "n < 6") (auto simp: b64_bits dest: bit_imp_le_length)
  done
lemma i3: "push_bit 6 ((push_bit 2 (b AND 15) OR drop_bit 6 c) AND 3) OR (c AND 63) = (c::byte)"
  apply (rule bit_word_eqI)
  subgoal for n
    by (cases "n < 2"; cases "n < 4"; cases "n < 6") (auto simp: b64_bits dest: bit_imp_le_length)
  done
lemma i2b: "push_bit 4 ((push_bit 4 (a AND 3) OR drop_bit 4 b) AND 15) OR drop_bit 2 (push_bit 2 (b AND 15)) = (b::byte)"
  apply (rule bit_word_eqI)
  subgoal for n
    by (cases "n < 2"; cases "n < 4"; cases "n < 6") (auto simp: b64_bits dest: bit_imp_le_length)
  done

lemma m1: "drop_bit 2 (a::byte) AND 63 = drop_bit 2 a"
  apply (rule bit_word_eqI)
  subgoal for n
    by (cases "n < 2"; cases "n < 4"; cases "n < 6") (auto simp: b64_bits dest: bit_imp_le_length)
  done
lemma m2: "(push_bit 4 ((a::byte) AND 3) OR drop_bit 4 (b::byte)) AND 63 = push_bit 4 (a AND 3) OR drop_bit 4 b"
  apply (rule bit_word_eqI)
  subgoal for n
    by (cases "n < 2"; cases "n < 4"; cases "n < 6") (auto simp: b64_bits dest: bit_imp_le_length)
  done
lemma m3: "(push_bit 2 ((b::byte) AND 15) OR drop_bit 6 (c::byte)) AND 63 = push_bit 2 (b AND 15) OR drop_bit 6 c"
  apply (rule bit_word_eqI)
  subgoal for n
    by (cases "n < 2"; cases "n < 4"; cases "n < 6") (auto simp: b64_bits dest: bit_imp_le_length)
  done
lemma m2b: "push_bit 4 ((a::byte) AND 3) AND 63 = push_bit 4 (a AND 3)"
  apply (rule bit_word_eqI)
  subgoal for n
    by (cases "n < 2"; cases "n < 4"; cases "n < 6") (auto simp: b64_bits dest: bit_imp_le_length)
  done
lemma m3b: "push_bit 2 ((b::byte) AND 15) AND 63 = push_bit 2 (b AND 15)"
  apply (rule bit_word_eqI)
  subgoal for n
    by (cases "n < 2"; cases "n < 4"; cases "n < 6") (auto simp: b64_bits dest: bit_imp_le_length)
  done
lemma i1b: "push_bit 2 (drop_bit 2 a) OR drop_bit 4 (push_bit 4 (a AND 3)) = (a::byte)"
  apply (rule bit_word_eqI)
  subgoal for n
    by (cases "n < 2"; cases "n < 4"; cases "n < 6") (auto simp: b64_bits dest: bit_imp_le_length)
  done

lemma six_bit: "(v::byte) AND 63 \<in> set (map of_nat [0..<64])"
proof -
  have "v AND 63 \<le> 63" by (rule word_and_le1)
  then have "unat (v AND 63) < 64" by (simp add: word_le_nat_alt)
  then have "of_nat (unat (v AND 63)) \<in> (of_nat :: nat \<Rightarrow> byte) ` set [0..<64]"
    by (intro imageI) simp
  then show ?thesis by simp
qed

lemma table_explicit:
  "table_b2a_base64 = map of_nat ([65..<91] @ [97..<123] @ [48..<58] @ [43, 47])"
  by (simp add: table_b2a_base64_def ascii_def upt_rec)

lemma b2a_table:
  "\<forall>v \<in> set (map of_nat [0..<64]).
     table_a2b_base64 (b2a v) = Some v \<and> b2a v \<noteq> 61 \<and> b2a v \<noteq> 45 \<and> b2a v \<noteq> 95"
  by (simp add: upt_rec b2a_def table_explicit table_a2b_base64_def)

lemma a2b_b2a: "table_a2b_base64 (b2a (v AND 63)) = Some (v AND 63)"
  and b2a_not_pad: "b2a (v AND 63) \<noteq> BASE64_PAD"
  and b2a_not_urlsafe: "b2a (v AND 63) \<noteq> 45" "b2a (v AND 63) \<noteq> 95"
  using b2a_table six_bit [of v] by (auto simp: BASE64_PAD_def)

lemmas sextets = m1 m2 m3 m2b m3b

lemma a2b_sextet:
  "table_a2b_base64 (b2a (drop_bit 2 a)) = Some (drop_bit 2 a)"
  "table_a2b_base64 (b2a (push_bit 4 (a AND 3) OR drop_bit 4 b)) = Some (push_bit 4 (a AND 3) OR drop_bit 4 b)"
  "table_a2b_base64 (b2a (push_bit 2 (b AND 15) OR drop_bit 6 c)) = Some (push_bit 2 (b AND 15) OR drop_bit 6 c)"
  "table_a2b_base64 (b2a (c AND 63)) = Some (c AND 63)"
  "table_a2b_base64 (b2a (push_bit 4 (a AND 3))) = Some (push_bit 4 (a AND 3))"
  "table_a2b_base64 (b2a (push_bit 2 (b AND 15))) = Some (push_bit 2 (b AND 15))"
proof -
  show "table_a2b_base64 (b2a (drop_bit 2 a)) = Some (drop_bit 2 a)"
    using a2b_b2a [of "drop_bit 2 a"] unfolding m1 .
  show "table_a2b_base64 (b2a (push_bit 4 (a AND 3) OR drop_bit 4 b)) = Some (push_bit 4 (a AND 3) OR drop_bit 4 b)"
    using a2b_b2a [of "push_bit 4 (a AND 3) OR drop_bit 4 b"] unfolding m2 .
  show "table_a2b_base64 (b2a (push_bit 2 (b AND 15) OR drop_bit 6 c)) = Some (push_bit 2 (b AND 15) OR drop_bit 6 c)"
    using a2b_b2a [of "push_bit 2 (b AND 15) OR drop_bit 6 c"] unfolding m3 .
  show "table_a2b_base64 (b2a (c AND 63)) = Some (c AND 63)"
    by (rule a2b_b2a)
  show "table_a2b_base64 (b2a (push_bit 4 (a AND 3))) = Some (push_bit 4 (a AND 3))"
    using a2b_b2a [of "push_bit 4 (a AND 3)"] unfolding m2b .
  show "table_a2b_base64 (b2a (push_bit 2 (b AND 15))) = Some (push_bit 2 (b AND 15))"
    using a2b_b2a [of "push_bit 2 (b AND 15)"] unfolding m3b .
qed

lemma table_a2b_pad: "table_a2b_base64 c = Some v \<Longrightarrow> c \<noteq> BASE64_PAD"
  by (auto simp: table_a2b_base64_def BASE64_PAD_def)

lemma a2b_quad:
  assumes "table_a2b_base64 c1 = Some v1" "table_a2b_base64 c2 = Some v2"
    "table_a2b_base64 c3 = Some v3" "table_a2b_base64 c4 = Some v4"
  shows "a2b_base64 0 l p out (c1 # c2 # c3 # c4 # rest) =
         a2b_base64 0 0 0
           (out @ [push_bit 2 v1 OR drop_bit 4 v2, push_bit 4 (v2 AND 15) OR drop_bit 2 v3,
                   push_bit 6 (v3 AND 3) OR v4]) rest"
  using assms table_a2b_pad [OF assms(1)] table_a2b_pad [OF assms(2)]
    table_a2b_pad [OF assms(3)] table_a2b_pad [OF assms(4)]
  by simp

lemma a2b_triple:
  assumes "table_a2b_base64 c1 = Some v1" "table_a2b_base64 c2 = Some v2"
    "table_a2b_base64 c3 = Some v3"
  shows "a2b_base64 0 l p out [c1, c2, c3, BASE64_PAD] =
         Inr (out @ [push_bit 2 v1 OR drop_bit 4 v2, push_bit 4 (v2 AND 15) OR drop_bit 2 v3])"
  using assms table_a2b_pad [OF assms(1)] table_a2b_pad [OF assms(2)]
    table_a2b_pad [OF assms(3)]
  by simp

lemma a2b_pair:
  assumes "table_a2b_base64 c1 = Some v1" "table_a2b_base64 c2 = Some v2"
  shows "a2b_base64 0 l p out [c1, c2, BASE64_PAD, BASE64_PAD] =
         Inr (out @ [push_bit 2 v1 OR drop_bit 4 v2])"
  using assms table_a2b_pad [OF assms(1)] table_a2b_pad [OF assms(2)]
  by simp

lemma a2b_b2a_base64: "a2b_base64 0 0 0 out (b2a_base64 xs) = Inr (out @ xs)"
proof (induction xs arbitrary: out rule: b2a_base64.induct)
  case (1 a b c rest)
  have "a2b_base64 0 0 0 out (b2a_base64 (a # b # c # rest)) =
        a2b_base64 0 0 0 (out @ [a, b, c]) (b2a_base64 rest)"
    unfolding b2a_base64.simps
    by (subst a2b_quad [OF a2b_sextet(1) a2b_sextet(2) a2b_sextet(3) a2b_sextet(4)])
       (simp only: i1 i2 i3)
  then show ?case using 1 [of "out @ [a, b, c]"] by simp
next
  case (2 a b)
  show ?case
    unfolding b2a_base64.simps
    by (subst a2b_triple [OF a2b_sextet(1) a2b_sextet(2) a2b_sextet(6)])
       (simp only: i1 i2b)
next
  case (3 a)
  show ?case
    unfolding b2a_base64.simps
    by (subst a2b_pair [OF a2b_sextet(1) a2b_sextet(5)]) (simp only: i1b)
next
  case 4
  then show ?case by simp
qed

lemma b64decode_b64encode: "b64decode (b64encode xs) = Inr xs"
  by (simp add: b64decode_def b64encode_def a2b_b2a_base64)

lemma length_b2a_base64: "length (b2a_base64 xs) = 4 * ((length xs + 2) div 3)"
  by (induction xs rule: b2a_base64.induct) (simp_all, presburger)

lemma b2a_sextet_not_urlsafe:
  "b2a (drop_bit 2 a) \<noteq> 45 \<and> b2a (drop_bit 2 a) \<noteq> 95"
  "b2a (push_bit 4 (a AND 3) OR drop_bit 4 b) \<noteq> 45
   \<and> b2a (push_bit 4 (a AND 3) OR drop_bit 4 b) \<noteq> 95"
  "b2a (push_bit 2 (b AND 15) OR drop_bit 6 c) \<noteq> 45
   \<and> b2a (push_bit 2 (b AND 15) OR drop_bit 6 c) \<noteq> 95"
  "b2a (c AND 63) \<noteq> 45 \<and> b2a (c AND 63) \<noteq> 95"
  "b2a (push_bit 4 (a AND 3)) \<noteq> 45 \<and> b2a (push_bit 4 (a AND 3)) \<noteq> 95"
  "b2a (push_bit 2 (b AND 15)) \<noteq> 45 \<and> b2a (push_bit 2 (b AND 15)) \<noteq> 95"
proof -
  have g: "b2a (v AND 63) \<noteq> 45 \<and> b2a (v AND 63) \<noteq> 95" for v
    using b2a_not_urlsafe [of v] by simp
  show "b2a (drop_bit 2 a) \<noteq> 45 \<and> b2a (drop_bit 2 a) \<noteq> 95"
    using g [of "drop_bit 2 a"] unfolding m1 .
  show "b2a (push_bit 4 (a AND 3) OR drop_bit 4 b) \<noteq> 45
        \<and> b2a (push_bit 4 (a AND 3) OR drop_bit 4 b) \<noteq> 95"
    using g [of "push_bit 4 (a AND 3) OR drop_bit 4 b"] unfolding m2 .
  show "b2a (push_bit 2 (b AND 15) OR drop_bit 6 c) \<noteq> 45
        \<and> b2a (push_bit 2 (b AND 15) OR drop_bit 6 c) \<noteq> 95"
    using g [of "push_bit 2 (b AND 15) OR drop_bit 6 c"] unfolding m3 .
  show "b2a (c AND 63) \<noteq> 45 \<and> b2a (c AND 63) \<noteq> 95"
    by (rule g)
  show "b2a (push_bit 4 (a AND 3)) \<noteq> 45 \<and> b2a (push_bit 4 (a AND 3)) \<noteq> 95"
    using g [of "push_bit 4 (a AND 3)"] unfolding m2b .
  show "b2a (push_bit 2 (b AND 15)) \<noteq> 45 \<and> b2a (push_bit 2 (b AND 15)) \<noteq> 95"
    using g [of "push_bit 2 (b AND 15)"] unfolding m3b .
qed

lemma pad_not_urlsafe: "BASE64_PAD \<noteq> 45 \<and> BASE64_PAD \<noteq> 95"
  by (simp add: BASE64_PAD_def)

lemma b2a_base64_not_urlsafe: "x \<in> set (b2a_base64 xs) \<Longrightarrow> x \<noteq> 45 \<and> x \<noteq> 95"
proof (induction xs rule: b2a_base64.induct)
  case (1 a b c rest)
  from 1(2) have "x = b2a (drop_bit 2 a) \<or> x = b2a (push_bit 4 (a AND 3) OR drop_bit 4 b)
      \<or> x = b2a (push_bit 2 (b AND 15) OR drop_bit 6 c) \<or> x = b2a (c AND 63)
      \<or> x \<in> set (b2a_base64 rest)"
    unfolding b2a_base64.simps set_simps insert_iff by blast
  then show ?case
    using 1(1) b2a_sextet_not_urlsafe(1) [of a] b2a_sextet_not_urlsafe(2) [of a b]
      b2a_sextet_not_urlsafe(3) [of b c] b2a_sextet_not_urlsafe(4) [of c]
    by metis
next
  case (2 a b)
  from 2 have "x = b2a (drop_bit 2 a) \<or> x = b2a (push_bit 4 (a AND 3) OR drop_bit 4 b)
      \<or> x = b2a (push_bit 2 (b AND 15)) \<or> x = BASE64_PAD"
    unfolding b2a_base64.simps set_simps insert_iff by blast
  then show ?case
    using b2a_sextet_not_urlsafe(1) [of a] b2a_sextet_not_urlsafe(2) [of a b]
      b2a_sextet_not_urlsafe(6) [of b] pad_not_urlsafe
    by metis
next
  case (3 a)
  from 3 have "x = b2a (drop_bit 2 a) \<or> x = b2a (push_bit 4 (a AND 3)) \<or> x = BASE64_PAD"
    unfolding b2a_base64.simps set_simps insert_iff by blast
  then show ?case
    using b2a_sextet_not_urlsafe(1) [of a] b2a_sextet_not_urlsafe(5) [of a] pad_not_urlsafe
    by metis
next
  case 4
  then show ?case by simp
qed

lemma urlsafe_translation_inverse:
  "c \<noteq> 45 \<and> c \<noteq> 95 \<Longrightarrow> urlsafe_decode_translation (urlsafe_encode_translation c) = c"
  by (simp add: urlsafe_decode_translation_def urlsafe_encode_translation_def)

lemma urlsafe_b64decode_b64encode: "urlsafe_b64decode (urlsafe_b64encode xs) = Inr xs"
proof -
  have "map urlsafe_decode_translation (map urlsafe_encode_translation (b2a_base64 xs)) =
        b2a_base64 xs"
    using b2a_base64_not_urlsafe [of _ xs]
    by (simp add: map_idI urlsafe_translation_inverse)
  then show ?thesis
    by (simp add: urlsafe_b64decode_def urlsafe_b64encode_def b64encode_def
        b64decode_b64encode [unfolded b64encode_def])
qed

lemma length_urlsafe_b64encode: "length (urlsafe_b64encode xs) = 4 * ((length xs + 2) div 3)"
  by (simp add: urlsafe_b64encode_def b64encode_def length_b2a_base64)

section \<open>Key derivation\<close>

lemma length_u32_bytes: "length (u32_bytes w) = 4"
  by (simp add: u32_bytes_def)

lemma length_sha256: "length (sha256 m) = 32"
proof -
  have "length (sha256_digest st) = 32" for st
    by (cases st rule: sha256_digest.cases) (simp add: length_u32_bytes)
  then show ?thesis by (simp add: sha256_def)
qed

lemma length_hmac_sha256: "length (hmac_sha256 key msg) = 32"
  by (simp add: hmac_sha256_def Let_def length_sha256)

lemma length_xor_bytes: "length (xor_bytes xs ys) = min (length xs) (length ys)"
  by (simp add: xor_bytes_def)

lemma length_pbkdf2_loop: "length t = 32 \<Longrightarrow> length (pbkdf2_loop n password u t) = 32"
  by (induction n arbitrary: u t) (simp_all add: Let_def length_xor_bytes length_hmac_sha256)

lemma length_pbkdf2_block: "length (pbkdf2_block password salt iterations i) = 32"
  by (simp add: pbkdf2_block_def Let_def length_pbkdf2_loop length_hmac_sha256)

lemma length_pbkdf2_32: "length (pbkdf2_hmac_sha256 password salt iterations 32) = 32"
  by (simp add: pbkdf2_hmac_sha256_def length_pbkdf2_block upt_rec)

lemma length_derive_key: "length (derive_key password salt) = 44"
  by (simp add: derive_key_def length_urlsafe_b64encode length_pbkdf2_32)

lemma Fernet_derive_key:
  "Fernet (derive_key password salt) =
     Inr \<lparr>signing_key = take 16 (pbkdf2_hmac_sha256 (str_encode password) salt KDF_ITERATIONS 32),
          encryption_key = drop 16 (pbkdf2_hmac_sha256 (str_encode password) salt KDF_ITERATIONS 32)\<rparr>"
  by (simp add: Fernet_def derive_key_def urlsafe_b64decode_b64encode length_pbkdf2_32)

text \<open>
  Claim C5, as amended. \<open>derive_key\<close> is a function of the password and the salt alone
  (it reads and changes nothing else). For a 16-byte salt it returns 44 bytes, not 32:
  the URL-safe base64 text of the 32 bytes PBKDF2 derives, which is the form
  \<open>Fernet\<close> takes its key in.
\<close>

theorem derive_key_base64_of_32_bytes:
  "length salt = SALT_SIZE \<Longrightarrow>
     length (derive_key password salt) = 44
     \<and> (\<exists>raw. urlsafe_b64decode (derive_key password salt) = Inr raw \<and> length raw = 32)"
  by (simp add: length_derive_key) (simp add: derive_key_def urlsafe_b64decode_b64encode length_pbkdf2_32)

theorem derive_key_base64_of_32_bytes_witness:
  "length (map of_nat [0..<16] :: bytes) = SALT_SIZE
   \<and> length (derive_key ''Secr3t!'' (map of_nat [0..<16])) = 44
   \<and> (\<exists>raw. urlsafe_b64decode (derive_key ''Secr3t!'' (map of_nat [0..<16])) = Inr raw
            \<and> length raw = 32)"
proof -
  have h: "length (map of_nat [0..<16] :: bytes) = SALT_SIZE"
    by (simp add: SALT_SIZE_def)
  show ?thesis
    using h derive_key_base64_of_32_bytes [OF h, of "''Secr3t!''"] by blast
qed

text \<open>The claim as the spec states it fails: the key returned for a 16-byte salt is not
  32 bytes long.\<close>

theorem derive_key_not_32_bytes:
  "\<not> (\<forall>password salt. length salt = 16 \<longrightarrow> length (derive_key password salt) = 32)"
proof
  assume "\<forall>password salt. length salt = 16 \<longrightarrow> length (derive_key password salt) = 32"
  then have "length (derive_key ''Secr3t!'' (replicate 16 0)) = 32" by simp
  then show False by (simp add: length_derive_key)
qed

text \<open>
  Claim C6, as amended. \<open>derive_key\<close> does not look at the length of the salt and has
  no error condition at all: for a salt of any length it returns the 44-byte key text,
  which \<open>Fernet\<close> accepts, its two halves cut from a PBKDF2 output computed over the salt
  as given, neither cut nor filled.
\<close>

theorem derive_key_any_salt:
  "length (derive_key password salt) = 44
   \<and> Fernet (derive_key password salt) =
       Inr \<lparr>signing_key =
              take 16 (pbkdf2_hmac_sha256 (str_encode password) salt KDF_ITERATIONS 32),
            encryption_key =
              drop 16 (pbkdf2_hmac_sha256 (str_encode password) salt KDF_ITERATIONS 32)\<rparr>"
  by (simp add: length_derive_key Fernet_derive_key)

text \<open>The claim as the spec states it fails: a salt of no bytes at all, as one of 5 or
  of 17, gets a key and no error.\<close>

theorem derive_key_short_salt_no_error:
  "length ([] :: bytes) \<noteq> 16
   \<and> length (derive_key ''Secr3t!'' []) = 44
   \<and> (\<exists>f. Fernet (derive_key ''Secr3t!'' []) = Inr f)"
  by (simp add: length_derive_key Fernet_derive_key)

section \<open>Lists cut into blocks\<close>

text \<open>\<open>chunks n\<close> cuts a list into blocks of \<open>n\<close>, the last one shorter when the
  length is no multiple of \<open>n\<close>; joining the blocks gives the list back.\<close>

lemma chunks_Nil: "chunks n [] = []"
  by (cases n) (simp_all add: chunks_def)

lemma chunks_count_step:
  assumes "0 < n" "xs \<noteq> []"
  shows "(length xs + n - 1) div n = Suc ((length xs - n + n - 1) div n)"
proof (cases "n \<le> length xs")
  case True
  then have "length xs + n - 1 = (length xs - n + n - 1) + n" using assms by simp
  then show ?thesis using assms by (simp only: div_add_self2)
next
  case False
  have "0 < length xs" using assms by simp
  then have "length xs + n - 1 = (length xs - 1) + n" by arith
  then have "(length xs + n - 1) div n = Suc ((length xs - 1) div n)"
    using assms by (simp only: div_add_self2)
  moreover have "length xs - 1 < n" using False by arith
  then have "(length xs - 1) div n = 0" by (rule div_less)
  moreover have "length xs - n + n - 1 < n" using False assms by arith
  then have "(length xs - n + n - 1) div n = 0" by (rule div_less)
  ultimately show ?thesis by simp
qed

lemma chunks_rec:
  assumes "0 < n" "xs \<noteq> []"
  shows "chunks n xs = take n xs # chunks n (drop n xs)"
proof -
  let ?k = "(length xs - n + n - 1) div n"
  have "chunks n xs = map (\<lambda>i. take n (drop (i * n) xs)) [0..<Suc ?k]"
    using chunks_count_step [OF assms] by (simp add: chunks_def)
  also have "[0..<Suc ?k] = 0 # map Suc [0..<?k]"
    by (simp add: upt_conv_Cons map_Suc_upt del: upt_Suc)
  finally show ?thesis
    by (simp add: chunks_def comp_def add.commute)
qed

lemma concat_chunks: "0 < n \<Longrightarrow> concat (chunks n xs) = xs"
proof (induction "length xs" arbitrary: xs rule: less_induct)
  case less
  show ?case
  proof (cases "xs = []")
    case True
    then show ?thesis by (simp add: chunks_Nil)
  next
    case False
    then have "length (drop n xs) < length xs" using less(2) by simp
    then have "concat (chunks n (drop n xs)) = drop n xs" using less by blast
    moreover have "chunks n xs = take n xs # chunks n (drop n xs)"
      by (rule chunks_rec [OF less(2) False])
    ultimately show ?thesis by simp
  qed
qed

lemma chunks_lengths:
  "0 < n \<Longrightarrow> length xs mod n = 0 \<Longrightarrow> \<forall>c \<in> set (chunks n xs). length c = n"
proof (induction "length xs" arbitrary: xs rule: less_induct)
  case less
  show ?case
  proof (cases "xs = []")
    case True
    then show ?thesis by (simp add: chunks_Nil)
  next
    case False
    then have n: "n \<le> length xs" using less(2,3) by (metis length_greater_0_conv mod_less not_le less_numeral_extra(3))
    then have "length (drop n xs) < length xs" "length (drop n xs) mod n = 0"
      using less(2,3) False by (simp_all add: le_mod_geq [symmetric])
    then have "\<forall>c \<in> set (chunks n (drop n xs)). length c = n"
      by (intro less(1) less(2))
    then have ih: "\<And>c. c \<in> set (chunks n (drop n xs)) \<Longrightarrow> length c = n" by blast
    have r: "chunks n xs = take n xs # chunks n (drop n xs)"
      by (rule chunks_rec [OF less(2) False])
    have t: "length (take n xs) = n" using n by simp
    show ?thesis
    proof
      fix c
      assume "c \<in> set (chunks n xs)"
      then have "c = take n xs \<or> c \<in> set (chunks n (drop n xs))"
        unfolding r by simp
      then show "length c = n" using t ih by blast
    qed
  qed
qed
lemma chunks_concat:
  "0 < n \<Longrightarrow> \<forall>x \<in> set xss. length x = n \<Longrightarrow> chunks n (concat xss) = xss"
proof (induction xss)
  case Nil
  then show ?case by (simp add: chunks_Nil)
next
  case (Cons x xss)
  then have x: "x \<noteq> []" "length x = n" by auto
  then have "chunks n (concat (x # xss)) = take n (x @ concat xss) # chunks n (drop n (x @ concat xss))"
    using chunks_rec [OF Cons(2), of "x @ concat xss"] by simp
  then show ?case using Cons x by simp
qed

lemma length_concat_uniform: "\<forall>x \<in> set xss. length x = n \<Longrightarrow> length (concat xss) = n * length xss"
  by (induction xss) simp_all


section \<open>AES: decryption inverts encryption\<close>

text \<open>Each step of a round has its inverse on a 16-byte state, so
  \<open>aes_inv_round\<close> undoes \<open>aes_round\<close> under the same round key.\<close>

lemma byte_cases: "(b::byte) \<in> set (map of_nat [0..<256])"
proof -
  have "unat b < 256" using unsigned_less [of b] by simp
  then have "of_nat (unat b) \<in> (of_nat :: nat \<Rightarrow> byte) ` set [0..<256]"
    by (intro imageI) simp
  then show ?thesis by simp
qed

lemma sbox_table: "\<forall>b \<in> set (map of_nat [0..<256]). aes_inv_sbox ! unat (aes_sbox ! unat (b::byte)) = b"
  by code_simp

lemma inv_sbox_sbox: "aes_inv_sbox ! unat (aes_sbox ! unat b) = b"
  using sbox_table byte_cases [of b] by blast

lemma inv_sub_bytes_sub_bytes: "inv_sub_bytes (sub_bytes s) = s"
  by (simp add: inv_sub_bytes_def sub_bytes_def inv_sbox_sbox map_idI)

lemma list16:
  "length s = 16 \<Longrightarrow>
   \<exists>s0 s1 s2 s3 s4 s5 s6 s7 s8 s9 s10 s11 s12 s13 s14 s15.
     s = [s0, s1, s2, s3, s4, s5, s6, s7, s8, s9, s10, s11, s12, s13, s14, s15]"
  by (simp add: eval_nat_numeral length_Suc_conv) blast

lemma inv_shift_rows_shift_rows: "length s = 16 \<Longrightarrow> inv_shift_rows (shift_rows s) = s"
  by (drule list16) (auto simp: inv_shift_rows_def shift_rows_def)

lemma xor_cancel: "(x::byte) XOR (x XOR y) = y"
  by (simp add: xor.assoc [symmetric])

lemma xtime_xor: "xtime (a XOR b) = xtime a XOR xtime b"
  by (simp add: xtime_def bit_xor_iff push_bit_xor xor.assoc xor.commute xor.left_commute
      xor_cancel)

lemma inv_mix_column_mix_column: "inv_mix_column (mix_column [a, b, c, d]) = [a, b, c, d]"
  by (simp add: inv_mix_column_def mix_column_def gmul3_def gmul9_def gmul11_def gmul13_def
      gmul14_def xtime_xor xor.assoc xor.commute xor.left_commute xor_cancel)

lemma chunks4_16:
  "chunks 4 [s0, s1, s2, s3, s4, s5, s6, s7, s8, s9, s10, s11, s12, s13, s14, s15] =
     [[s0, s1, s2, s3], [s4, s5, s6, s7], [s8, s9, s10, s11], [s12, s13, s14, s15]]"
  by (simp add: chunks_def upt_rec)

lemma mix_column_4: "\<exists>a' b' c' d'. mix_column [a, b, c, d] = [a', b', c', d']"
  by (simp add: mix_column_def)

lemma inv_mix_columns_mix_columns_16:
  "inv_mix_columns
     (mix_columns [s0, s1, s2, s3, s4, s5, s6, s7, s8, s9, s10, s11, s12, s13, s14, s15]) =
   [s0, s1, s2, s3, s4, s5, s6, s7, s8, s9, s10, s11, s12, s13, s14, s15]"
proof -
  obtain a0 a1 a2 a3 where a: "mix_column [s0, s1, s2, s3] = [a0, a1, a2, a3]"
    using mix_column_4 by blast
  obtain b0 b1 b2 b3 where b: "mix_column [s4, s5, s6, s7] = [b0, b1, b2, b3]"
    using mix_column_4 by blast
  obtain c0 c1 c2 c3 where c: "mix_column [s8, s9, s10, s11] = [c0, c1, c2, c3]"
    using mix_column_4 by blast
  obtain d0 d1 d2 d3 where d: "mix_column [s12, s13, s14, s15] = [d0, d1, d2, d3]"
    using mix_column_4 by blast
  have "mix_columns [s0, s1, s2, s3, s4, s5, s6, s7, s8, s9, s10, s11, s12, s13, s14, s15] =
      [a0, a1, a2, a3, b0, b1, b2, b3, c0, c1, c2, c3, d0, d1, d2, d3]"
    by (simp add: mix_columns_def chunks4_16 a b c d)
  then have "inv_mix_columns
       (mix_columns [s0, s1, s2, s3, s4, s5, s6, s7, s8, s9, s10, s11, s12, s13, s14, s15]) =
      inv_mix_column [a0, a1, a2, a3] @ inv_mix_column [b0, b1, b2, b3]
      @ inv_mix_column [c0, c1, c2, c3] @ inv_mix_column [d0, d1, d2, d3]"
    by (simp add: inv_mix_columns_def chunks4_16)
  also have "\<dots> = [s0, s1, s2, s3, s4, s5, s6, s7, s8, s9, s10, s11, s12, s13, s14, s15]"
    unfolding a [symmetric] b [symmetric] c [symmetric] d [symmetric]
      inv_mix_column_mix_column
    by simp
  finally show ?thesis .
qed

lemma inv_mix_columns_mix_columns: "length s = 16 \<Longrightarrow> inv_mix_columns (mix_columns s) = s"
  by (drule list16) (auto simp: inv_mix_columns_mix_columns_16)

lemma length_mix_columns: "length s = 16 \<Longrightarrow> length (mix_columns s) = 16"
  by (drule list16) (auto simp: mix_columns_def chunks4_16 mix_column_def)

lemma length_sub_bytes: "length (sub_bytes s) = length s"
  by (simp add: sub_bytes_def)

lemma length_shift_rows: "length (shift_rows s) = 16"
  by (simp add: shift_rows_def)

lemma xor_bytes_involution: "length rk = length s \<Longrightarrow> xor_bytes (xor_bytes s rk) rk = s"
proof (induction s arbitrary: rk)
  case Nil
  then show ?case by (simp add: xor_bytes_def)
next
  case (Cons x s)
  then obtain k rk' where "rk = k # rk'" by (cases rk) auto
  with Cons show ?case by (simp add: xor_bytes_def xor.assoc)
qed

lemma add_round_key_involution:
  "length rk = length s \<Longrightarrow> add_round_key rk (add_round_key rk s) = s"
  by (simp add: add_round_key_def xor_bytes_involution)

lemma length_add_round_key: "length rk = length s \<Longrightarrow> length (add_round_key rk s) = length s"
  by (simp add: add_round_key_def xor_bytes_def)

lemma length_aes_round: "length rk = 16 \<Longrightarrow> length s = 16 \<Longrightarrow> length (aes_round rk s) = 16"
  by (simp add: aes_round_def length_add_round_key length_mix_columns length_shift_rows)

lemma aes_inv_round_round:
  "length rk = 16 \<Longrightarrow> length s = 16 \<Longrightarrow> aes_inv_round rk (aes_round rk s) = s"
  by (simp add: aes_inv_round_def aes_round_def add_round_key_involution length_mix_columns
      length_shift_rows inv_mix_columns_mix_columns inv_shift_rows_shift_rows length_sub_bytes
      inv_sub_bytes_sub_bytes)

lemma aes_rounds_inverse:
  "\<forall>rk \<in> set rks. length rk = 16 \<Longrightarrow> length s = 16 \<Longrightarrow>
     foldl (\<lambda>s rk. aes_inv_round rk s) (foldl (\<lambda>s rk. aes_round rk s) s rks) (rev rks) = s"
proof (induction rks arbitrary: s)
  case Nil
  then show ?case by simp
next
  case (Cons rk rks)
  then have "length (aes_round rk s) = 16" by (simp add: length_aes_round)
  with Cons show ?case by (simp add: aes_inv_round_round)
qed

lemma length_aes_rounds:
  "\<forall>rk \<in> set rks. length rk = 16 \<Longrightarrow> length s = 16 \<Longrightarrow>
     length (foldl (\<lambda>s rk. aes_round rk s) s rks) = 16"
  by (induction rks arbitrary: s) (simp_all add: length_aes_round)

lemma expand_key_words_props:
  "\<forall>x \<in> set w. length x = 4 \<Longrightarrow> 4 \<le> length w \<Longrightarrow>
     (\<forall>x \<in> set (expand_key_words k w). length x = 4)
     \<and> length (expand_key_words k w) = length w + k"
proof (induction k arbitrary: w)
  case 0
  then show ?case by simp
next
  case (Suc k)
  let ?i = "length w"
  let ?temp = "w ! (?i - 1)"
  let ?temp' = "if ?i mod 4 = 0
                then xor_bytes (sub_bytes (rotate1 ?temp)) [aes_rcon ! (?i div 4 - 1), 0, 0, 0]
                else ?temp"
  let ?new = "xor_bytes (w ! (?i - 4)) ?temp'"
  have a: "length ?temp = 4" "length (w ! (?i - 4)) = 4"
    using Suc.prems by (simp_all add: nth_mem)
  then have "length ?temp' = 4"
    by (simp add: length_xor_bytes length_sub_bytes)
  then have "length ?new = 4"
    using a by (simp add: length_xor_bytes)
  then have "\<forall>x \<in> set (w @ [?new]). length x = 4" "4 \<le> length (w @ [?new])"
    using Suc.prems by auto
  from Suc.IH [OF this] have
    "(\<forall>x \<in> set (expand_key_words k (w @ [?new])). length x = 4)
     \<and> length (expand_key_words k (w @ [?new])) = length (w @ [?new]) + k" .
  moreover have "expand_key_words (Suc k) w = expand_key_words k (w @ [?new])"
    by (simp add: Let_def)
  ultimately show ?case by simp
qed

lemma chunks4_key:
  "length key = 16 \<Longrightarrow> (\<forall>x \<in> set (chunks 4 key). length x = 4) \<and> length (chunks 4 key) = 4"
  by (drule list16) (auto simp: chunks4_16)

lemma div_round_up_exact:
  assumes "0 < (n::nat)" "m mod n = 0"
  shows "(m + n - 1) div n = m div n"
proof -
  from assms(2) obtain q where q: "m = q * n"
    by (metis mod_eq_0_iff_dvd dvd_def mult.commute)
  have "m + n - 1 = (n - 1) + q * n" using assms(1) q by simp
  then have "(m + n - 1) div n = (n - 1) div n + q" by (simp only: div_mult_self1 [OF less_imp_neq [OF assms(1), symmetric]])
  then show ?thesis using assms(1) q by simp
qed

lemma length_chunks: "0 < n \<Longrightarrow> length xs mod n = 0 \<Longrightarrow> length (chunks n xs) = length xs div n"
  using div_round_up_exact [of n "length xs"] by (simp add: chunks_def)

lemma key_expansion_props:
  assumes "length key = 16"
  shows "length (key_expansion key) = 11" and "\<forall>rk \<in> set (key_expansion key). length rk = 16"
proof -
  let ?w = "expand_key_words 40 (chunks 4 key)"
  have w: "\<forall>x \<in> set ?w. length x = 4" "length ?w = 44"
    using expand_key_words_props [of "chunks 4 key" 40] chunks4_key [OF assms] by simp_all
  have n: "length (chunks 4 ?w) = 11"
    using w(2) by (simp add: length_chunks)
  then show "length (key_expansion key) = 11"
    by (simp add: key_expansion_def)
  have g: "\<forall>c \<in> set (chunks 4 ?w). length c = 4"
    using w(2) by (intro chunks_lengths) simp_all
  show "\<forall>rk \<in> set (key_expansion key). length rk = 16"
  proof
    fix rk
    assume "rk \<in> set (key_expansion key)"
    then obtain c where c: "c \<in> set (chunks 4 ?w)" "rk = concat c"
      by (auto simp: key_expansion_def)
    have "set c \<subseteq> set ?w"
    proof -
      have "set (concat (chunks 4 ?w)) = set ?w" by (simp add: concat_chunks)
      then show ?thesis using c(1) by auto
    qed
    then have "\<forall>x \<in> set c. length x = 4" using w(1) by blast
    then have "length (concat c) = 4 * length c" by (rule length_concat_uniform)
    then show "length rk = 16" using c g by simp
  qed
qed

lemma aes_decrypt_encrypt_block:
  assumes "length key = 16" "length block = 16"
  shows "aes_decrypt_block key (aes_encrypt_block key block) = block"
    and "length (aes_encrypt_block key block) = 16"
proof -
  let ?rks = "key_expansion key"
  let ?mid = "take 9 (drop 1 ?rks)"
  let ?s0 = "add_round_key (?rks ! 0) block"
  let ?s9 = "foldl (\<lambda>s rk. aes_round rk s) ?s0 ?mid"
  let ?c = "add_round_key (?rks ! 10) (shift_rows (sub_bytes ?s9))"
  have len: "length ?rks = 11" and all: "\<forall>rk \<in> set ?rks. length rk = 16"
    using key_expansion_props [OF assms(1)] by blast+
  have rk0: "length (?rks ! 0) = 16" and rk10: "length (?rks ! 10) = 16"
    using len all by (simp_all add: nth_mem)
  have mid: "\<forall>rk \<in> set ?mid. length rk = 16"
    using all by (meson in_set_dropD in_set_takeD)
  have s0: "length ?s0 = 16"
    using rk0 assms(2) by (simp add: length_add_round_key)
  have s9: "length ?s9 = 16"
    using length_aes_rounds [OF mid s0] .
  have enc: "aes_encrypt_block key block = ?c"
    by (simp add: aes_encrypt_block_def Let_def)
  show "length (aes_encrypt_block key block) = 16"
    unfolding enc using rk10 by (simp add: length_add_round_key length_shift_rows)
  have "add_round_key (?rks ! 10) ?c = shift_rows (sub_bytes ?s9)"
    using rk10 by (simp add: add_round_key_involution length_shift_rows)
  then have "inv_sub_bytes (inv_shift_rows (add_round_key (?rks ! 10) ?c)) = ?s9"
    using s9 by (simp add: inv_shift_rows_shift_rows length_sub_bytes inv_sub_bytes_sub_bytes)
  then have "aes_decrypt_block key ?c =
      add_round_key (?rks ! 0) (foldl (\<lambda>s rk. aes_inv_round rk s) ?s9 (rev ?mid))"
    by (simp add: aes_decrypt_block_def Let_def)
  also have "\<dots> = add_round_key (?rks ! 0) ?s0"
    using aes_rounds_inverse [OF mid s0] by simp
  also have "\<dots> = block"
    using rk0 assms(2) by (simp add: add_round_key_involution)
  finally show "aes_decrypt_block key (aes_encrypt_block key block) = block"
    unfolding enc .
qed

section \<open>Fernet: decryption inverts encryption\<close>

text \<open>Under a 16-byte encryption key and a 16-byte IV, CBC decryption gives the padded
  blocks back, unpadding gives the message back, and a token made by \<open>fernet_encrypt\<close>
  passes every check of \<open>fernet_decrypt\<close> under the same key.\<close>

lemma cbc_decrypt_encrypt:
  "length key = 16 \<Longrightarrow> length prev = 16 \<Longrightarrow> \<forall>p \<in> set ps. length p = 16 \<Longrightarrow>
     cbc_decrypt key prev (cbc_encrypt key prev ps) = ps
     \<and> (\<forall>c \<in> set (cbc_encrypt key prev ps). length c = 16)"
proof (induction ps arbitrary: prev)
  case Nil
  then show ?case by simp
next
  case (Cons p ps)
  let ?c = "aes_encrypt_block key (xor_bytes p prev)"
  have p: "length p = 16" using Cons.prems(3) by (meson list.set_intros(1))
  have ps: "\<forall>p \<in> set ps. length p = 16" using Cons.prems(3) by (meson list.set_intros(2))
  have x: "length (xor_bytes p prev) = 16"
    using p Cons.prems(2) by (simp add: length_xor_bytes)
  have c: "length ?c = 16"
    using aes_decrypt_encrypt_block(2) [OF Cons.prems(1) x] .
  have d: "aes_decrypt_block key ?c = xor_bytes p prev"
    using aes_decrypt_encrypt_block(1) [OF Cons.prems(1) x] .
  have "xor_bytes (xor_bytes p prev) prev = p"
    using p Cons.prems(2) by (simp add: xor_bytes_involution)
  moreover have "cbc_decrypt key ?c (cbc_encrypt key ?c ps) = ps
      \<and> (\<forall>c \<in> set (cbc_encrypt key ?c ps). length c = 16)"
    by (rule Cons.IH [OF Cons.prems(1) c ps])
  ultimately show ?case using c d by (auto simp: Let_def)
qed

lemma pkcs7_pad_count: "0 < 16 - length m mod 16 \<and> 16 - length (m::bytes) mod 16 \<le> 16"
  by simp

lemma length_pkcs7_pad: "length (pkcs7_pad m) mod 16 = 0"
proof -
  have "(length m + (16 - length m mod 16)) mod 16 = 0" by presburger
  then show ?thesis by (simp add: pkcs7_pad_def Let_def)
qed

lemma pkcs7_unpad_pad: "pkcs7_unpad (pkcs7_pad m) = Inr m"
proof -
  define n where "n = 16 - length m mod 16"
  define p where "p = m @ replicate n (of_nat n :: byte)"
  have pad: "pkcs7_pad m = p"
    by (simp add: pkcs7_pad_def Let_def n_def p_def)
  have "length m mod 16 < 16" by simp
  then have n: "0 < n" "n \<le> 16" by (simp_all add: n_def)
  have u: "unat (of_nat n :: byte) = n"
    using n by (simp add: unat_of_nat)
  have ne: "p \<noteq> []" using n by (simp add: p_def)
  have l: "last p = of_nat n" using n by (simp add: p_def)
  have len: "length p - n = length m" by (simp add: p_def)
  have md: "length p mod 16 = 0" using length_pkcs7_pad [of m] by (simp add: pad)
  have d: "drop (length m) p = replicate n (of_nat n)" and t: "take (length m) p = m"
    by (simp_all add: p_def)
  show ?thesis
    unfolding pad pkcs7_unpad_def Let_def l u len d t
    using ne n md by simp
qed

lemma length_u64_bytes: "length (u64_bytes w) = 8"
  by (simp add: u64_bytes_def)

lemma fernet_decrypt_data:
  assumes "length iv = 16" "length tag = 32" "hmac_sha256 (signing_key f) (hdr @ iv @ ct) = tag"
    "length hdr = 9" "hd hdr = 0x80" "length ct mod 16 = 0"
    "pkcs7_unpad (concat (cbc_decrypt (encryption_key f) iv (chunks 16 ct))) = Inr data"
  shows "fernet_decrypt f (urlsafe_b64encode ((hdr @ iv @ ct) @ tag)) = Inr data"
proof -
  define d where "d = (hdr @ iv @ ct) @ tag"
  have t1: "take (length d - 32) d = hdr @ iv @ ct" and t2: "drop (length d - 32) d = tag"
    using assms(2) by (simp_all add: d_def)
  have t3: "take 16 (drop 9 d) = iv"
    using assms(1,4) by (simp add: d_def)
  have t4: "drop 25 (hdr @ iv @ ct) = ct"
    using assms(1,4) by simp
  have ne: "hdr \<noteq> []" using assms(4) by auto
  have t7: "\<not> length d < 9" "d \<noteq> []" "hd d = 0x80"
    using assms(4,5) ne by (simp_all add: d_def)
  show ?thesis
    unfolding d_def [symmetric] fernet_decrypt_def urlsafe_b64decode_b64encode sum.case Let_def
      t1 t2 t3 t4 assms(3) assms(7)
    using t7 assms(1,6) by simp
qed

lemma fernet_decrypt_encrypt:
  assumes "length iv = 16" "length (encryption_key f) = 16"
  shows "fernet_decrypt f (fernet_encrypt f now iv data) = Inr data"
proof -
  define blocks where "blocks = chunks 16 (pkcs7_pad data)"
  define cs where "cs = cbc_encrypt (encryption_key f) iv blocks"
  define hdr where "hdr = [0x80] @ u64_bytes now"
  define tag where "tag = hmac_sha256 (signing_key f) (hdr @ iv @ concat cs)"
  have tok: "fernet_encrypt f now iv data = urlsafe_b64encode ((hdr @ iv @ concat cs) @ tag)"
    by (simp add: fernet_encrypt_def Let_def blocks_def cs_def hdr_def tag_def)
  have blocks: "\<forall>p \<in> set blocks. length p = 16"
    unfolding blocks_def by (intro chunks_lengths) (simp_all add: length_pkcs7_pad)
  have cbc: "cbc_decrypt (encryption_key f) iv cs = blocks"
    and cs: "\<forall>c \<in> set cs. length c = 16"
    unfolding cs_def using cbc_decrypt_encrypt [OF assms(2) assms(1) blocks] by blast+
  have ctlen: "length (concat cs) = 16 * length cs"
    using cs by (rule length_concat_uniform)
  have t5: "chunks 16 (concat cs) = cs"
    by (rule chunks_concat [OF _ cs]) simp
  have t6: "concat blocks = pkcs7_pad data"
    by (simp add: blocks_def concat_chunks)
  show ?thesis
    unfolding tok
  proof (rule fernet_decrypt_data)
    show "length iv = 16" by (rule assms(1))
    show "length tag = 32" by (simp add: tag_def length_hmac_sha256)
    show "hmac_sha256 (signing_key f) (hdr @ iv @ concat cs) = tag" by (simp add: tag_def)
    show "length hdr = 9" by (simp add: hdr_def length_u64_bytes)
    show "hd hdr = 0x80" by (simp add: hdr_def)
    show "length (concat cs) mod 16 = 0" by (simp add: ctlen)
    show "pkcs7_unpad (concat (cbc_decrypt (encryption_key f) iv (chunks 16 (concat cs)))) = Inr data"
      by (simp only: t5 cbc t6 pkcs7_unpad_pad)
  qed
qed
section \<open>JSON: reading back what was written\<close>

text \<open>\<open>json.loads\<close> returns the value \<open>json.dumps\<close> was given, for every value without
  numbers whose dictionaries have distinct keys. The strings first, then the scanner
  along the items of a list or a dictionary, then the whole value.\<close>

lemma hex_digit_table:
  "\<forall>k \<in> set [0..<16]. hex_val (hex_digit k) = Some k \<and> printable (hex_digit k)"
  by (simp add: upt_rec hex_val_def hex_digit_def printable_def)

lemma hex_val_hex_digit: "k < 16 \<Longrightarrow> hex_val (hex_digit k) = Some k"
  and printable_hex_digit: "k < 16 \<Longrightarrow> printable (hex_digit k)"
  using hex_digit_table by auto

lemma hex_val_0: "hex_val (CHR ''0'') = Some 0"
  by (simp add: hex_val_def)

lemma of_char_lt_256: "(of_char c :: nat) < 256"
  by (cases c) (simp)

lemma scanstring_escape: "scanstring (escape_char c @ t) = cons_result c (scanstring t)"
proof -
  let ?n = "of_char c :: nat"
  have hi: "?n div 16 < 16" using of_char_lt_256 [of c] by arith
  have lo: "?n mod 16 < 16" by simp
  have n: "?n div 16 * 16 + ?n mod 16 = ?n" by simp
  have u: "scanstring ([BACKSLASH, CHR ''u'', CHR ''0'', CHR ''0'', hex_digit (?n div 16),
        hex_digit (?n mod 16)] @ t) = cons_result c (scanstring t)"
    using of_char_lt_256 [of c]
    by (simp add: hex_val_hex_digit [OF hi] hex_val_hex_digit [OF lo] n QUOTE_def BACKSLASH_def
        hex_val_0)
  show ?thesis
    using u
    by (auto simp: escape_char_def QUOTE_def BACKSLASH_def unescape_def)
qed

lemma scanstring_escaped:
  "scanstring (concat (map escape_char s) @ QUOTE # rest) = Inr (s, rest)"
  by (induction s) (simp_all add: scanstring_escape cons_result_def)

lemma scanstring_basestring:
  "scanstring (tl (encode_basestring_ascii s) @ rest) = Inr (s, rest)"
  using scanstring_escaped [of s rest] by (simp add: encode_basestring_ascii_def)























lemma dumps_item_eq:
  "(\<lambda>(k, v). encode_basestring_ascii k @ '': '' @ json_dumps v) = dumps_item"
  by (auto simp: dumps_item_def fun_eq_iff)




















section \<open>Saving the vault and the table of accounts\<close>

text \<open>\<open>encrypt_data\<close> never raises: the key \<open>derive_key\<close> returns is one \<open>Fernet\<close>
  accepts.\<close>

lemma encrypt_data_Inr:
  "encrypt_data rng now data password =
     Inr (b64encode (urandom rng SALT_SIZE
          @ fernet_encrypt
              \<lparr>signing_key = take 16 (pbkdf2_hmac_sha256 (str_encode password)
                                    (urandom rng SALT_SIZE) KDF_ITERATIONS 32),
               encryption_key = drop 16 (pbkdf2_hmac_sha256 (str_encode password)
                                    (urandom rng SALT_SIZE) KDF_ITERATIONS 32)\<rparr>
              now (urandom (advance SALT_SIZE rng) 16) (str_encode (json_dumps data))))"
  by (simp add: encrypt_data_def Let_def Fernet_derive_key)













text \<open>
  Claim C4, as amended. \<open>save_vault\<close> writes in place. It encrypts the contents, opens
  the vault file itself for writing, which leaves it empty, and then writes the new
  container into it; there is no temporary file and no rename. A save that runs to its
  end leaves exactly the container \<open>encrypt_data\<close> returned in the file; one that is
  interrupted between the two steps leaves the file empty.
\<close>

theorem save_vault_writes_in_place:
  "\<exists>blob. encrypt_data rng now data password = Inr blob
      \<and> save_vault_states rng now data password file = Inr [file, Some [], Some blob]
      \<and> save_vault rng now data password file = Inr (Some blob)"
  by (simp add: save_vault_def save_vault_states_def encrypt_data_Inr)

text \<open>The claim as the spec states it fails: saving over an existing vault passes through
  a state in which the live file has been cut to nothing and the new container is not
  yet there.\<close>

theorem save_vault_truncates_live_file:
  "\<exists>blob. save_vault_states (\<lambda>i. 0) 0 (JDict [(''accounts'', JDict [])]) ''Secr3t!''
            (Some (ascii ''the vault saved before''))
          = Inr [Some (ascii ''the vault saved before''), Some [], Some blob]"
  by (simp add: save_vault_states_def encrypt_data_Inr)

section \<open>The container: encryption and decryption\<close>














text \<open>What \<open>decrypt_data\<close> meets on the way: bytes that are no base64, a token that
  passes only when its tag is right, and text that is no JSON.\<close>

lemma b64decode_A: "b64decode (ascii ''A'') = Inl BinasciiError"
  by (simp add: b64decode_def ascii_def BASE64_PAD_def table_a2b_base64_def)

lemma b64decode_empty: "b64decode [] = Inr []"
  by (simp add: b64decode_def)

lemma json_loads_text: "json_loads beyond (ascii ''secret'') = Inl JSONDecodeError"
proof -
  have "json_loads_modelled (ascii ''secret'') = Inl JSONDecodeError"
    by code_simp
  then show ?thesis by (simp add: json_loads_def)
qed

lemma Fernet_zero_salt:
  "\<exists>f. Fernet (derive_key ''Secr3t!'' (replicate 16 0)) = Inr f \<and> length (encryption_key f) = 16"
  by (simp add: Fernet_derive_key length_pbkdf2_32)



lemma a2b_base64_error: "a2b_base64 quad_pos leftchar pads out s = Inl e \<Longrightarrow> e = BinasciiError"
  by (induction quad_pos leftchar pads out s rule: a2b_base64.induct)
    (auto split: if_splits option.splits)

lemma b64decode_error: "b64decode s = Inl e \<Longrightarrow> e = BinasciiError"
  unfolding b64decode_def by (rule a2b_base64_error)


lemma decrypt_data_cases:
  "(\<exists>data. decrypt_data_try beyond blob password = Inr data
        \<and> decrypt_data beyond blob password = (Some data, []))
     \<or> decrypt_data beyond blob password = (None, [DECRYPTION_FAILED])"
  by (cases "decrypt_data_try beyond blob password") (simp_all add: decrypt_data_def)


















text \<open>
  Claim C10. \<open>decrypt_data\<close> never raises. Whatever the bytes and the password, and
  whatever \<open>json.loads\<close> does with a plaintext beyond the model, it either returns the
  value \<open>json.loads\<close> read from the decrypted token and prints nothing, or it returns
  \<open>None\<close> after printing the one line about the failure. The second is what happens to
  bytes that are no base64, to bytes that decode to fewer than \<open>SALT_SIZE\<close> bytes, and
  to a token whose plaintext \<open>json.loads\<close> refuses.
\<close>

theorem decrypt_data_total:
  "((\<exists>data. decrypt_data_try beyond blob password = Inr data
         \<and> decrypt_data beyond blob password = (Some data, []))
      \<or> decrypt_data beyond blob password = (None, [DECRYPTION_FAILED]))
   \<and> (b64decode blob = Inl e \<longrightarrow>
         decrypt_data beyond blob password = (None, [DECRYPTION_FAILED]))
   \<and> (b64decode blob = Inr decoded \<and> length decoded < SALT_SIZE \<longrightarrow>
         decrypt_data beyond blob password = (None, [DECRYPTION_FAILED]))
   \<and> (b64decode blob = Inr decoded
        \<and> Fernet (derive_key password (take SALT_SIZE decoded)) = Inr f
        \<and> fernet_decrypt f (drop SALT_SIZE decoded) = Inr plaintext
        \<and> json_loads beyond plaintext = Inl e \<longrightarrow>
         decrypt_data beyond blob password = (None, [DECRYPTION_FAILED]))"
proof -
  have short: "fernet_decrypt g [] = Inl InvalidToken" for g
    by (simp add: fernet_decrypt_def urlsafe_b64decode_def b64decode_def)
  have a: "(\<exists>data. decrypt_data_try beyond blob password = Inr data
         \<and> decrypt_data beyond blob password = (Some data, []))
      \<or> decrypt_data beyond blob password = (None, [DECRYPTION_FAILED])"
    by (rule decrypt_data_cases)
  have b: "decrypt_data beyond blob password = (None, [DECRYPTION_FAILED])"
    if "b64decode blob = Inl e"
    using that by (simp add: decrypt_data_def decrypt_data_try_def)
  have c: "decrypt_data beyond blob password = (None, [DECRYPTION_FAILED])"
    if "b64decode blob = Inr decoded" "length decoded < SALT_SIZE"
    using that short
    by (simp add: decrypt_data_def decrypt_data_try_def Fernet_derive_key)
  have d: "decrypt_data beyond blob password = (None, [DECRYPTION_FAILED])"
    if "b64decode blob = Inr decoded"
      "Fernet (derive_key password (take SALT_SIZE decoded)) = Inr f"
      "fernet_decrypt f (drop SALT_SIZE decoded) = Inr plaintext"
      "json_loads beyond plaintext = Inl e"
    using that by (simp add: decrypt_data_def decrypt_data_try_def)
  show ?thesis
    using a b c d by blast
qed

theorem decrypt_data_total_witness:
  "b64decode (ascii ''A'') = Inl BinasciiError
   \<and> decrypt_data (\<lambda>b. Inl JSONDecodeError) (ascii ''A'') ''Secr3t!''
       = (None, [DECRYPTION_FAILED])
   \<and> b64decode [] = Inr []
   \<and> length ([] :: bytes) < SALT_SIZE
   \<and> decrypt_data (\<lambda>b. Inl JSONDecodeError) [] ''Secr3t!'' = (None, [DECRYPTION_FAILED])
   \<and> (\<exists>f. Fernet (derive_key ''Secr3t!'' (replicate 16 0)) = Inr f
          \<and> json_loads (\<lambda>b. Inl JSONDecodeError) (ascii ''secret'') = Inl JSONDecodeError
          \<and> decrypt_data (\<lambda>b. Inl JSONDecodeError)
               (b64encode (replicate 16 0 @ fernet_encrypt f 0 (replicate 16 0) (ascii ''secret'')))
               ''Secr3t!'' = (None, [DECRYPTION_FAILED]))"
proof -
  let ?beyond = "\<lambda>b :: bytes. Inl JSONDecodeError :: exn + json"
  have a: "decrypt_data ?beyond (ascii ''A'') ''Secr3t!'' = (None, [DECRYPTION_FAILED])"
    using decrypt_data_total [where blob = "ascii ''A''" and e = BinasciiError
        and beyond = ?beyond and password = "''Secr3t!''"] b64decode_A
    by blast
  have s: "length ([] :: bytes) < SALT_SIZE" by (simp add: SALT_SIZE_def)
  have b: "decrypt_data ?beyond [] ''Secr3t!'' = (None, [DECRYPTION_FAILED])"
    using decrypt_data_total [where blob = "[]" and decoded = "[]"
        and beyond = ?beyond and password = "''Secr3t!''"] b64decode_empty s
    by blast
  obtain f where f: "Fernet (derive_key ''Secr3t!'' (replicate 16 0)) = Inr f"
    "length (encryption_key f) = 16"
    using Fernet_zero_salt by blast
  let ?token = "fernet_encrypt f 0 (replicate 16 0) (ascii ''secret'')"
  let ?blob = "b64encode (replicate 16 0 @ ?token)"
  have d1: "b64decode ?blob = Inr (replicate 16 0 @ ?token)"
    by (rule b64decode_b64encode)
  have d2: "Fernet (derive_key ''Secr3t!'' (take SALT_SIZE (replicate 16 0 @ ?token))) = Inr f"
    using f(1) by (simp add: SALT_SIZE_def)
  have d3: "fernet_decrypt f (drop SALT_SIZE (replicate 16 0 @ ?token)) = Inr (ascii ''secret'')"
    using fernet_decrypt_encrypt [of "replicate 16 0" f 0 "ascii ''secret''"] f(2)
    by (simp add: SALT_SIZE_def)
  have j: "json_loads ?beyond (ascii ''secret'') = Inl JSONDecodeError"
    by (rule json_loads_text)
  have c: "decrypt_data ?beyond ?blob ''Secr3t!'' = (None, [DECRYPTION_FAILED])"
    using decrypt_data_total [where blob = ?blob and password = "''Secr3t!''"
        and e = JSONDecodeError and decoded = "replicate 16 0 @ ?token" and f = f
        and plaintext = "ascii ''secret''" and beyond = ?beyond] d1 d2 d3 j
    by blast
  show ?thesis
    using a b c s f(1) b64decode_A b64decode_empty j by blast
qed







section \<open>The password generator\<close>

lemma secrets_choice_mem: "alphabet \<noteq> [] \<Longrightarrow> secrets_choice draw alphabet \<in> set alphabet"
  by (simp add: secrets_choice_def)

text \<open>
  Claim C9. For every positive length \<open>n\<close> and whatever the random draws are,
  \<open>generate_password\<close> with only the digits selected returns a string of exactly \<open>n\<close>
  characters, all of them digits, and prints nothing; with no character class selected it
  returns \<open>None\<close> (the spec's EmptyAlphabet) after printing its error line.
\<close>

theorem generate_password_digits_only:
  "(0 < n \<longrightarrow>
      (\<exists>s. generate_password draws n False False False True = (Some s, [])
           \<and> int (length s) = n \<and> set s \<subseteq> set digits))
   \<and> generate_password draws n False False False False = (None, [NO_CHARACTER_TYPES])"
proof -
  have ne: "digits \<noteq> []" by (simp add: digits_def)
  have "set (map (\<lambda>i. secrets_choice (draws i) digits) [0..<nat n]) \<subseteq> set digits"
    using secrets_choice_mem [OF ne] by auto
  then show ?thesis
    using ne by (auto simp: generate_password_def)
qed

theorem generate_password_digits_only_witness:
  "(0::int) < 4
   \<and> (\<exists>s. generate_password (\<lambda>i. 7 * i + 3) 4 False False False True = (Some s, [])
          \<and> int (length s) = 4 \<and> set s \<subseteq> set digits)
   \<and> generate_password (\<lambda>i. 7 * i + 3) 4 False False False True = (Some ''3074'', [])
   \<and> generate_password (\<lambda>i. 7 * i + 3) 4 False False False False = (None, [NO_CHARACTER_TYPES])"
proof -
  have "generate_password (\<lambda>i. 7 * i + 3) 4 False False False True = (Some ''3074'', [])"
    by (simp add: generate_password_def secrets_choice_def digits_def upt_rec)
  then show ?thesis
    using generate_password_digits_only [of 4 "\<lambda>i. 7 * i + 3"] by simp
qed

end
